theory Spec2Isabelle
  imports Main "HOL-Library.Word"
begin

unbundle bit_operations_syntax

section \<open>The ring buffer of \<^verbatim>\<open>queue.go\<close>\<close>

text \<open>
  The queue stores length-prefixed frames in one flat byte region. The two cursors are
  Go \<^verbatim>\<open>uint64\<close> values, the frame header is an \<^verbatim>\<open>int32\<close>, and both are
  modelled as machine words, so every addition, subtraction and conversion of the
  source wraps here as it does there. A run-time panic of Go (division by zero, an
  index or slice bound, \<^verbatim>\<open>make\<close> with a bad size, the explicit
  \<^verbatim>\<open>panic("unreachable")\<close>) is an error value, next to the two ordinary errors.
\<close>

type_synonym byte = "8 word"
type_synonym uint64 = "64 word"
type_synonym int32 = "32 word"

datatype error =
    ErrEmpty
  | ErrFull
  | PanicUnreachable
  | PanicDivideByZero
  | PanicIndexOutOfRange
  | PanicSliceBounds
  | PanicMakeslice
  | OutOfAllocation

text \<open>
  A Go byte slice: \<open>array\<close> is the backing array from the slice's first element on
  (its length is \<^verbatim>\<open>cap(s)\<close>), \<open>slen\<close> is \<^verbatim>\<open>len(s)\<close>.
\<close>

record slice =
  array :: "byte list"
  slen :: nat

record Queue =
  readPtr :: uint64
  writePtr :: uint64
  cap :: uint64
  mem :: slice

text \<open>
  \<^verbatim>\<open>ElementMetaSize\<close> is a package variable that nothing assigns after its
  initialisation to 4, the size of the \<^verbatim>\<open>int32\<close> header.
\<close>

definition ElementMetaSize :: uint64 where
  "ElementMetaSize = 4"

text \<open>
  \<^verbatim>\<open>make([]byte, n, c)\<close> with \<^verbatim>\<open>uint64\<close> sizes: the sizes must fit Go's
  \<^verbatim>\<open>int\<close> (64 bits here, as the code's pointer arithmetic assumes) and
  \<open>n \<le> c\<close>; otherwise \<^verbatim>\<open>make\<close> panics. The bytes are zero.
\<close>

definition make_bytes :: "uint64 \<Rightarrow> uint64 \<Rightarrow> error + slice" where
  "make_bytes n c =
     (if 2 ^ 63 \<le> unat n \<or> 2 ^ 63 \<le> unat c \<or> unat c < unat n then Inl PanicMakeslice
      else Inr \<lparr>array = replicate (unat c) 0, slen = unat n\<rparr>)"

definition NewQueue :: "uint64 \<Rightarrow> error + Queue" where
  "NewQueue c =
     (case make_bytes c (c + 3) of
        Inl e \<Rightarrow> Inl e
      | Inr m \<Rightarrow> Inr \<lparr>readPtr = 0, writePtr = 0, cap = c, mem = m\<rparr>)"

definition IsEmpty :: "Queue \<Rightarrow> bool" where
  "IsEmpty q = (readPtr q = writePtr q)"

text \<open>\<^verbatim>\<open>ptr % q.cap\<close>: Go panics on a zero divisor.\<close>

definition pos :: "Queue \<Rightarrow> uint64 \<Rightarrow> error + uint64" where
  "pos q ptr = (if cap q = 0 then Inl PanicDivideByZero else Inr (ptr mod cap q))"

definition IsFull :: "Queue \<Rightarrow> uint64 \<Rightarrow> error + bool" where
  "IsFull q bufSize =
     (if (writePtr q + ElementMetaSize + bufSize) - readPtr q > of_nat (slen (mem q)) then Inr True
      else
        let cost = bufSize + ElementMetaSize in
        case pos q (readPtr q) of
          Inl e \<Rightarrow> Inl e
        | Inr phyReadPos \<Rightarrow>
           (case pos q (writePtr q) of
              Inl e \<Rightarrow> Inl e
            | Inr phyWritePos \<Rightarrow>
                if phyReadPos \<le> phyWritePos then
                  (if phyWritePos + cost \<le> of_nat (slen (mem q)) then Inr False
                   else if cost \<le> phyReadPos then Inr False
                   else Inr True)
                else Inr (phyWritePos + cost > phyReadPos)))"

subsection \<open>Headers in memory\<close>

text \<open>
  The header is stored through an \<^verbatim>\<open>*int32\<close> pointer to \<^verbatim>\<open>&q.mem[pos]\<close>: four
  bytes in host order (little-endian on the platforms Go's 64-bit ports run on; the
  order is never observed from outside). Taking the address \<^verbatim>\<open>&q.mem[pos]\<close> is
  bounds-checked against \<^verbatim>\<open>len(q.mem)\<close>; the three bytes after it are not checked,
  so an access that leaves the backing array is recorded as \<open>OutOfAllocation\<close>.
\<close>

definition int32_bytes :: "int32 \<Rightarrow> byte list" where
  "int32_bytes m = [ucast m, ucast (drop_bit 8 m), ucast (drop_bit 16 m), ucast (drop_bit 24 m)]"

definition bytes_int32 :: "byte list \<Rightarrow> int32" where
  "bytes_int32 bs =
     ucast (bs ! 0) OR push_bit 8 (ucast (bs ! 1)) OR push_bit 16 (ucast (bs ! 2))
       OR push_bit 24 (ucast (bs ! 3))"

definition store :: "byte list \<Rightarrow> nat \<Rightarrow> byte list \<Rightarrow> byte list" where
  "store xs i bs = take i xs @ bs @ drop (i + length bs) xs"

definition load :: "byte list \<Rightarrow> nat \<Rightarrow> nat \<Rightarrow> byte list" where
  "load xs i n = take n (drop i xs)"

definition writeMeta :: "Queue \<Rightarrow> uint64 \<Rightarrow> int32 \<Rightarrow> error + Queue" where
  "writeMeta q p meta =
     (if \<not> unat p < slen (mem q) then Inl PanicIndexOutOfRange
      else if \<not> unat p + 4 \<le> length (array (mem q)) then Inl OutOfAllocation
      else Inr (q\<lparr>mem := (mem q)\<lparr>array := store (array (mem q)) (unat p) (int32_bytes meta)\<rparr>\<rparr>))"

definition readMeta :: "Queue \<Rightarrow> uint64 \<Rightarrow> error + int32" where
  "readMeta q p =
     (if \<not> unat p < slen (mem q) then Inl PanicIndexOutOfRange
      else if \<not> unat p + 4 \<le> length (array (mem q)) then Inl OutOfAllocation
      else Inr (bytes_int32 (load (array (mem q)) (unat p) 4)))"

text \<open>
  \<^verbatim>\<open>copy(q.mem[a:b], buf)\<close>: the slice expression panics unless
  \<open>a \<le> b \<le> cap(q.mem)\<close>; \<^verbatim>\<open>copy\<close> then moves as many bytes as the shorter side has.
  \<^verbatim>\<open>q.mem[a:b]\<close> as a value is the same check followed by a read.
\<close>

definition copy_to :: "Queue \<Rightarrow> uint64 \<Rightarrow> uint64 \<Rightarrow> byte list \<Rightarrow> error + Queue" where
  "copy_to q a b buf =
     (if \<not> (unat a \<le> unat b \<and> unat b \<le> length (array (mem q))) then Inl PanicSliceBounds
      else Inr (q\<lparr>mem := (mem q)\<lparr>array :=
                  store (array (mem q)) (unat a) (take (unat b - unat a) buf)\<rparr>\<rparr>))"

definition slice_of :: "Queue \<Rightarrow> uint64 \<Rightarrow> uint64 \<Rightarrow> error + byte list" where
  "slice_of q a b =
     (if \<not> (unat a \<le> unat b \<and> unat b \<le> length (array (mem q))) then Inl PanicSliceBounds
      else Inr (load (array (mem q)) (unat a) (unat b - unat a)))"

subsection \<open>Push\<close>

text \<open>
  Step 1 of \<^verbatim>\<open>Push\<close>: when the tail is too short for the frame, write the skip
  header and move the local \<^verbatim>\<open>writePtr\<close> on. The result is the pair of locals
  \<^verbatim>\<open>(writePtr, writePtrNext)\<close> and the queue as it is after the step (on a panic,
  as it is at the panic).
\<close>

definition Push_skip :: "Queue \<Rightarrow> byte list \<Rightarrow> (error + uint64 \<times> uint64) \<times> Queue" where
  "Push_skip q buf =
     (let wp = writePtr q;
          wpNext = wp + ElementMetaSize + of_nat (length buf)
      in case pos q wp of
           Inl e \<Rightarrow> (Inl e, q)
         | Inr p \<Rightarrow>
             if cap q - p < of_nat (length buf) + ElementMetaSize then
               (let skip = (ucast (cap q - p) :: int32)
                in case writeMeta q p (- skip) of
                     Inl e \<Rightarrow> (Inl e, q)
                   | Inr q1 \<Rightarrow>
                       (let wp1 = wp + scast skip
                        in (Inr (wp1, wp1 + ElementMetaSize + of_nat (length buf)), q1)))
             else (Inr (wp, wpNext), q))"

definition Push :: "Queue \<Rightarrow> byte list \<Rightarrow> error option \<times> Queue" where
  "Push q buf =
     (case IsFull q (of_nat (length buf)) of
        Inl e \<Rightarrow> (Some e, q)
      | Inr True \<Rightarrow> (Some ErrFull, q)
      | Inr False \<Rightarrow>
         (case Push_skip q buf of
            (Inl e, q1) \<Rightarrow> (Some e, q1)
          | (Inr (wp, wpNext), q1) \<Rightarrow>
             (case pos q1 wp of
                Inl e \<Rightarrow> (Some e, q1)
              | Inr p \<Rightarrow>
                 (case writeMeta q1 p (of_nat (length buf)) of
                    Inl e \<Rightarrow> (Some e, q1)
                  | Inr q2 \<Rightarrow>
                     (case copy_to q2 (p + ElementMetaSize)
                             (p + ElementMetaSize + of_nat (length buf)) buf of
                        Inl e \<Rightarrow> (Some e, q2)
                      | Inr q3 \<Rightarrow> (None, q3\<lparr>writePtr := wpNext\<rparr>))))))"

subsection \<open>Pop\<close>

text \<open>
  Step 1.1 of \<^verbatim>\<open>Pop\<close>: read the header at the read cursor, follow one skip
  header. The result is the pair of locals \<^verbatim>\<open>(readingPtr, meta)\<close> before
  \<^verbatim>\<open>readingPtr += ElementMetaSize\<close>.
\<close>

definition Pop_meta :: "Queue \<Rightarrow> error + uint64 \<times> int32" where
  "Pop_meta q =
     (let rp = readPtr q
      in case pos q rp of
           Inl e \<Rightarrow> Inl e
         | Inr p \<Rightarrow>
            (case readMeta q p of
               Inl e \<Rightarrow> Inl e
             | Inr meta \<Rightarrow>
                 if meta <s 0 then
                   (let skip = - meta;
                        rp1 = rp + scast skip
                    in case pos q rp1 of
                         Inl e \<Rightarrow> Inl e
                       | Inr p1 \<Rightarrow>
                          (case readMeta q p1 of
                             Inl e \<Rightarrow> Inl e
                           | Inr meta1 \<Rightarrow>
                               if meta1 <s 0 then Inl PanicUnreachable else Inr (rp1, meta1)))
                 else Inr (rp, meta)))"

definition Pop :: "Queue \<Rightarrow> byte list \<Rightarrow> (error + byte list) \<times> Queue" where
  "Pop q dst =
     (if IsEmpty q then (Inl ErrEmpty, q)
      else case Pop_meta q of
             Inl e \<Rightarrow> (Inl e, q)
           | Inr (rp, meta) \<Rightarrow>
              (let rp4 = rp + ElementMetaSize;
                   dataSize = (scast meta :: uint64)
               in case pos q rp4 of
                    Inl e \<Rightarrow> (Inl e, q)
                  | Inr p \<Rightarrow>
                     (case slice_of q p (p + dataSize) of
                        Inl e \<Rightarrow> (Inl e, q)
                      | Inr data \<Rightarrow> (Inr (dst @ data), q\<lparr>readPtr := rp4 + dataSize\<rparr>))))"

subsection \<open>Sequences of calls\<close>

text \<open>
  A caller's view: a sequence of \<^verbatim>\<open>Push\<close> and \<^verbatim>\<open>Pop\<close> calls on one queue. The
  ordinary errors leave the caller running; a panic ends the run.
\<close>

datatype op = OpPush "byte list" | OpPop "byte list"

fun run :: "Queue \<Rightarrow> op list \<Rightarrow> error + Queue" where
  "run q [] = Inr q"
| "run q (OpPush buf # ops) =
     (case Push q buf of
        (None, q') \<Rightarrow> run q' ops
      | (Some e, q') \<Rightarrow> if e = ErrFull then run q' ops else Inl e)"
| "run q (OpPop dst # ops) =
     (case Pop q dst of
        (Inr out, q') \<Rightarrow> run q' ops
      | (Inl e, q') \<Rightarrow> if e = ErrEmpty then run q' ops else Inl e)"

text \<open>Pushing a list of payloads in order, and popping \<open>n\<close> times into an empty \<^verbatim>\<open>dst\<close>.\<close>

fun pushes :: "Queue \<Rightarrow> byte list list \<Rightarrow> error option list \<times> Queue" where
  "pushes q [] = ([], q)"
| "pushes q (buf # bufs) =
     (case Push q buf of (r, q') \<Rightarrow> (case pushes q' bufs of (rs, q'') \<Rightarrow> (r # rs, q'')))"

fun pops :: "Queue \<Rightarrow> nat \<Rightarrow> (error + byte list) list \<times> Queue" where
  "pops q 0 = ([], q)"
| "pops q (Suc n) =
     (case Pop q [] of (r, q') \<Rightarrow> (case pops q' n of (rs, q'') \<Rightarrow> (r # rs, q'')))"

text \<open>\<open>k\<close> times: push the empty payload, pop it.\<close>

fun rounds :: "nat \<Rightarrow> op list" where
  "rounds 0 = []"
| "rounds (Suc k) = OpPush [] # OpPop [] # rounds k"

text \<open>
  The bytes a sequence of calls asks the queue to store, headers included. A frame
  advances the write cursor by less than twice its cost (a skip is shorter than the
  frame that makes it necessary), so twice this number bounds the write cursor.
\<close>

fun op_cost :: "op \<Rightarrow> nat" where
  "op_cost (OpPush buf) = length buf + 4"
| "op_cost (OpPop dst) = 0"

definition ops_cost :: "op list \<Rightarrow> nat" where
  "ops_cost ops = sum_list (map op_cost ops)"

fun small_op :: "op \<Rightarrow> bool" where
  "small_op (OpPush buf) = (length buf + 4 \<le> 2 ^ 31)"
| "small_op (OpPop dst) = True"

section \<open>The admission check as the specification words it\<close>

text \<open>
  The algorithm of the specification's section 4.2, over the natural numbers: step 1
  compares the logical occupancy the frame would give with the capacity, step 2
  places the frame physically. \<open>headerSize\<close> is 4.
\<close>

definition IsFull_spec :: "nat \<Rightarrow> nat \<Rightarrow> nat \<Rightarrow> nat \<Rightarrow> bool" where
  "IsFull_spec capacity readCursor writeCursor payloadLen =
     (if (writeCursor + 4 + payloadLen) - readCursor > capacity then True
      else
        let physRead = readCursor mod capacity;
            physWrite = writeCursor mod capacity;
            cost = 4 + payloadLen
        in if physRead \<le> physWrite
           then \<not> (physWrite + cost \<le> capacity \<or> cost \<le> physRead)
           else \<not> (physWrite + cost \<le> physRead))"

section \<open>The write path as the specification words it\<close>

text \<open>
  Section 4.3 of the specification, over the natural numbers. With
  \<open>pos = writeCursor mod capacity\<close>: if the tail from \<open>pos\<close> to \<open>capacity\<close> has fewer
  than \<open>headerSize + len\<close> bytes, the header \<open>-(capacity - pos)\<close> is stored at \<open>pos\<close>
  and the effective position is \<open>writeCursor + (capacity - pos)\<close>; the header \<open>len\<close>
  and the payload go to the effective position; the new write cursor is the effective
  position plus \<open>headerSize + len\<close>.
\<close>

definition skip_header :: "nat \<Rightarrow> int32" where
  "skip_header n = - of_nat n"

definition data_header :: "nat \<Rightarrow> int32" where
  "data_header n = of_nat n"

definition tail_short :: "nat \<Rightarrow> nat \<Rightarrow> nat \<Rightarrow> bool" where
  "tail_short capacity writeCursor n = (capacity - writeCursor mod capacity < 4 + n)"

definition effective_position :: "nat \<Rightarrow> nat \<Rightarrow> nat \<Rightarrow> nat" where
  "effective_position capacity writeCursor n =
     (if tail_short capacity writeCursor n
      then writeCursor + (capacity - writeCursor mod capacity) else writeCursor)"

definition Push_spec_region :: "byte list \<Rightarrow> nat \<Rightarrow> nat \<Rightarrow> byte list \<Rightarrow> byte list" where
  "Push_spec_region region capacity writeCursor payload =
     (let pos = writeCursor mod capacity;
          region1 = (if tail_short capacity writeCursor (length payload)
                     then store region pos (int32_bytes (skip_header (capacity - pos)))
                     else region);
          epos = effective_position capacity writeCursor (length payload) mod capacity;
          region2 = store region1 epos (int32_bytes (data_header (length payload)))
      in store region2 (epos + 4) payload)"

definition Push_spec_cursor :: "nat \<Rightarrow> nat \<Rightarrow> nat \<Rightarrow> nat" where
  "Push_spec_cursor capacity writeCursor n = effective_position capacity writeCursor n + 4 + n"

section \<open>The layout invariant\<close>

text \<open>
  A queue built by \<^verbatim>\<open>NewQueue\<close> keeps the shape of its slice: \<^verbatim>\<open>len(q.mem)\<close> is
  \<^verbatim>\<open>q.cap\<close> and the backing array has three bytes more.
\<close>

definition wf_Queue :: "Queue \<Rightarrow> bool" where
  "wf_Queue q =
     (slen (mem q) = unat (cap q) \<and> length (array (mem q)) = unat (cap q) + 3
      \<and> unat (cap q) + 3 < 2 ^ 63)"

text \<open>The header stored at position \<open>p\<close> of an array, as \<^verbatim>\<open>readMeta\<close> decodes it.\<close>

definition meta_at :: "byte list \<Rightarrow> nat \<Rightarrow> int32" where
  "meta_at a p = bytes_int32 (load a p 4)"

text \<open>Two arrays of one length that hold the same bytes at the positions in \<open>S\<close>.\<close>

definition agree :: "nat set \<Rightarrow> byte list \<Rightarrow> byte list \<Rightarrow> bool" where
  "agree S a b = (length a = length b \<and> (\<forall>j\<in>S. a ! j = b ! j))"

text \<open>
  \<open>frames a C r w fs\<close>: in the array \<open>a\<close> of a queue of capacity \<open>C\<close>, the logical
  interval from \<open>r\<close> to \<open>w\<close> holds exactly the payloads \<open>fs\<close>, in this order, each as
  a frame that does not cross the physical end, and each preceded by at most one
  skip header that leads to physical position 0.
\<close>

definition skipped :: "byte list \<Rightarrow> nat \<Rightarrow> nat \<Rightarrow> bool" where
  "skipped a C r = (meta_at a (r mod C) <s 0)"

definition frame_start :: "byte list \<Rightarrow> nat \<Rightarrow> nat \<Rightarrow> nat" where
  "frame_start a C r = (if skipped a C r then r + (C - r mod C) else r)"

fun frames :: "byte list \<Rightarrow> nat \<Rightarrow> nat \<Rightarrow> nat \<Rightarrow> byte list list \<Rightarrow> bool" where
  "frames a C r w [] = (r = w)"
| "frames a C r w (p # ps) =
     ((skipped a C r \<longrightarrow>
         meta_at a (r mod C) = skip_header (C - r mod C) \<and> C - r mod C < 2 ^ 31)
      \<and> meta_at a (frame_start a C r mod C) = data_header (length p)
      \<and> length p < 2 ^ 31
      \<and> frame_start a C r mod C + 4 + length p \<le> C
      \<and> load a (frame_start a C r mod C + 4) (length p) = p
      \<and> frames a C (frame_start a C r + 4 + length p) w ps)"

definition Inv :: "Queue \<Rightarrow> byte list list \<Rightarrow> bool" where
  "Inv q fs =
     (wf_Queue q \<and> unat (readPtr q) \<le> unat (writePtr q)
      \<and> unat (writePtr q) - unat (readPtr q) \<le> unat (cap q)
      \<and> frames (array (mem q)) (unat (cap q)) (unat (readPtr q)) (unat (writePtr q)) fs)"

text \<open>
  The physical bytes the pending frames may occupy: one interval while the pending
  region has not passed the physical end, otherwise the tail (with the three spare
  bytes a skip header may reach into) and the head up to the write position.
\<close>

definition Occ :: "nat \<Rightarrow> nat \<Rightarrow> nat \<Rightarrow> nat set" where
  "Occ C r w =
     (if r mod C + (w - r) \<le> C then {r mod C ..< r mod C + (w - r)}
      else {r mod C ..< C + 3} \<union> {0 ..< w mod C})"

section \<open>Machine words and memory\<close>

lemma unat_lt64: "unat (x :: uint64) < 18446744073709551616"
  using unsigned_less [of x] by simp

lemma unat_add64: "unat a + unat b < 18446744073709551616 \<Longrightarrow> unat (a + b :: uint64) = unat a + unat b"
  using unat_add_lem [of a b] by simp

lemma unat_sub64: "unat b \<le> unat a \<Longrightarrow> unat (a - b :: uint64) = unat a - unat b"
  by (simp add: unat_sub word_le_nat_alt)

lemma unat_of_nat64: "n < 18446744073709551616 \<Longrightarrow> unat (of_nat n :: uint64) = n"
  by (simp add: unat_of_nat)

lemma occ_unat:
  assumes "unat r \<le> unat w" "unat w - unat r + 4 + unat n < 18446744073709551616"
  shows "unat ((w + ElementMetaSize + n) - r :: uint64) = unat w - unat r + 4 + unat n"
proof -
  have e: "(w + ElementMetaSize + n) - r = (w - r) + (4 + n)"
    by (simp add: ElementMetaSize_def)
  have a: "unat (w - r) = unat w - unat r" using assms by (simp add: unat_sub64)
  have b: "unat (4 + n) = 4 + unat n" using assms by (subst unat_add64) auto
  show ?thesis unfolding e using assms a b by (subst unat_add64) auto
qed

lemma IsFull_refines:
  assumes le: "readPtr q \<le> writePtr q"
    and occ: "unat (writePtr q) - unat (readPtr q) \<le> unat (cap q)"
    and len: "slen (mem q) = unat (cap q)"
    and cap: "unat (cap q) + 3 < 2 ^ 63"
    and n: "unat n < 2 ^ 63"
  shows "IsFull q n = Inr (IsFull_spec (unat (cap q)) (unat (readPtr q)) (unat (writePtr q)) (unat n))"
proof -
  let ?R = "unat (readPtr q)" and ?W = "unat (writePtr q)" and ?C = "unat (cap q)" and ?N = "unat n"
  have RW: "?R \<le> ?W" using le by (simp add: word_le_nat_alt)
  have o: "unat ((writePtr q + ElementMetaSize + n) - readPtr q) = ?W - ?R + 4 + ?N"
  proof (rule occ_unat [OF RW])
    show "?W - ?R + 4 + ?N < 18446744073709551616" using occ cap n by simp
  qed
  have c: "(of_nat (slen (mem q)) :: uint64) = cap q" by (simp add: len)
  have cost: "unat (n + ElementMetaSize) = ?N + 4"
    using n by (subst unat_add64) (auto simp: ElementMetaSize_def)
  have first: "((writePtr q + ElementMetaSize + n) - readPtr q > of_nat (slen (mem q)))
       = (?W + 4 + ?N - ?R > ?C)"
    unfolding c word_less_nat_alt o using RW by auto
  show ?thesis
  proof (cases "cap q = 0")
    case True
    then have "?C = 0" by simp
    then show ?thesis using first RW by (auto simp: IsFull_def IsFull_spec_def)
  next
    case False
    then have C0: "0 < ?C" by (simp add: unat_gt_0)
    have pw: "unat (writePtr q mod cap q + (n + ElementMetaSize)) = ?W mod ?C + (?N + 4)"
      using cap n cost mod_less_divisor [OF C0, of ?W]
      by (subst unat_add64) (auto simp: unat_mod)
    show ?thesis
      using False first cost pw RW
      by (auto simp: IsFull_def IsFull_spec_def pos_def Let_def c word_le_nat_alt word_less_nat_alt unat_mod add.commute)
  qed
qed

lemma sint_of_nat32: "n < 2147483648 \<Longrightarrow> sint (of_nat n :: int32) = int n"
  by (simp add: signed_of_nat signed_take_bit_int_eq_self)

lemma not_neg_of_nat32: "n < 2147483648 \<Longrightarrow> \<not> (of_nat n :: int32) <s 0"
  by (simp add: word_sless_alt sint_of_nat32)

lemma sint_neg_of_nat32: "n \<le> 2147483648 \<Longrightarrow> sint (- of_nat n :: int32) = - int n"
proof -
  assume n: "n \<le> 2147483648"
  have "(- of_nat n :: int32) = word_of_int (- int n)" by simp
  then have "sint (- of_nat n :: int32) = signed_take_bit 31 (- int n)"
    by (simp only: signed_of_int) simp
  also have "\<dots> = - int n" using n by (intro signed_take_bit_int_eq_self) auto
  finally show ?thesis .
qed

lemma neg_of_nat32: "0 < n \<Longrightarrow> n \<le> 2147483648 \<Longrightarrow> (- of_nat n :: int32) <s 0"
  by (simp add: word_sless_alt sint_neg_of_nat32)

lemma scast_of_nat32: "n < 2147483648 \<Longrightarrow> (scast (of_nat n :: int32) :: uint64) = of_nat n"
  by (simp add: scast_eq sint_of_nat32)

lemma ucast_64_32: "(ucast (x :: uint64) :: int32) = of_nat (unat x)"
  by transfer simp

lemma bytes_int32_bytes: "bytes_int32 (int32_bytes m) = m"
  unfolding bytes_int32_def int32_bytes_def
  apply simp
  apply (rule bit_word_eqI)
  subgoal for n
    apply (cases "n < 8"; cases "n < 16"; cases "n < 24")
    apply (auto simp: bit_simps)
    done
  done

lemma length_int32_bytes: "length (int32_bytes m) = 4"
  by (simp add: int32_bytes_def)

lemma length_store: "i + length bs \<le> length xs \<Longrightarrow> length (store xs i bs) = length xs"
  by (simp add: store_def)

lemma load_store_same: "i + length bs \<le> length xs \<Longrightarrow> load (store xs i bs) i (length bs) = bs"
  by (simp add: store_def load_def)

lemma nth_store_outside:
  "i + length bs \<le> length xs \<Longrightarrow> j < i \<or> i + length bs \<le> j \<Longrightarrow> store xs i bs ! j = xs ! j"
  by (auto simp: store_def nth_append)


lemma load_agree:
  assumes "agree S a b" "{i ..< i + n} \<subseteq> S"
  shows "load a i n = load b i n"
proof (rule nth_equalityI)
  show "length (load a i n) = length (load b i n)"
    using assms by (simp add: load_def agree_def)
next
  fix j assume "j < length (load a i n)"
  then have "j < n" "i + j < length a" by (auto simp: load_def)
  moreover from \<open>j < n\<close> assms(2) have "i + j \<in> S" by auto
  ultimately show "load a i n ! j = load b i n ! j"
    using assms(1) by (simp add: load_def agree_def)
qed

lemma meta_at_agree: "agree S a b \<Longrightarrow> {i ..< i + 4} \<subseteq> S \<Longrightarrow> meta_at a i = meta_at b i"
  by (simp add: meta_at_def load_agree)

lemma agree_store:
  "i + length bs \<le> length a \<Longrightarrow> S \<inter> {i ..< i + length bs} = {} \<Longrightarrow> agree S a (store a i bs)"
proof -
  assume b: "i + length bs \<le> length a" and d: "S \<inter> {i ..< i + length bs} = {}"
  have "\<And>j. j \<in> S \<Longrightarrow> a ! j = store a i bs ! j"
  proof -
    fix j assume "j \<in> S"
    with d have "j < i \<or> i + length bs \<le> j" by auto
    then show "a ! j = store a i bs ! j" using nth_store_outside [OF b] by simp
  qed
  then show ?thesis using b by (simp add: agree_def length_store)
qed

lemma agree_trans: "agree S a b \<Longrightarrow> agree S b c \<Longrightarrow> agree S a c"
  by (auto simp: agree_def)

lemma agree_mono: "agree S a b \<Longrightarrow> T \<subseteq> S \<Longrightarrow> agree T a b"
  by (auto simp: agree_def)

lemma agree_refl: "agree S a a"
  by (simp add: agree_def)

lemma meta_at_store_same: "i + 4 \<le> length a \<Longrightarrow> meta_at (store a i (int32_bytes m)) i = m"
  using load_store_same [of i "int32_bytes m" a]
  by (simp add: meta_at_def length_int32_bytes bytes_int32_bytes)

lemma mod_shift:
  fixes C d r :: nat
  assumes "0 < C" "d \<le> C"
  shows "(r + d) mod C = (if r mod C + d < C then r mod C + d else r mod C + d - C)"
proof -
  have lt: "r mod C < C" using assms by simp
  have e: "(r + d) mod C = (r mod C + d) mod C" by (simp add: mod_add_left_eq)
  show ?thesis
  proof (cases "r mod C + d < C")
    case True then show ?thesis using e by simp
  next
    case False
    then have "(r mod C + d) mod C = (r mod C + d - C) mod C"
      by (simp add: le_mod_geq)
    also have "\<dots> = r mod C + d - C" using lt assms False by (intro mod_less) linarith
    finally show ?thesis using e False by simp
  qed
qed

lemma mod_to_end:
  fixes C r :: nat
  assumes "0 < C"
  shows "(r + (C - r mod C)) mod C = 0"
proof -
  have lt: "r mod C < C" using assms by simp
  have "(r + (C - r mod C)) mod C = (r mod C + (C - r mod C)) mod C"
    by (simp add: mod_add_left_eq)
  also have "r mod C + (C - r mod C) = C" using lt by simp
  finally show ?thesis by simp
qed

lemma frames_le: "frames a C r w fs \<Longrightarrow> r \<le> w"
proof (induction fs arbitrary: r)
  case Nil then show ?case by simp
next
  case (Cons p ps)
  from Cons.prems have "frames a C (frame_start a C r + 4 + length p) w ps" by simp
  from Cons.IH [OF this] show ?case by (simp add: frame_start_def split: if_splits)
qed

lemma frames_append:
  "frames a C r m fs \<Longrightarrow> frames a C m w gs \<Longrightarrow> frames a C r w (fs @ gs)"
  by (induction fs arbitrary: r) auto

lemma Occ_mono:
  assumes C: "0 < C" and r1: "r \<le> r1" "r1 \<le> w" and d: "w - r \<le> C"
  shows "Occ C r1 w \<subseteq> Occ C r w"
proof -
  obtain d1 where d1: "r1 = r + d1" using r1 by (metis le_Suc_ex)
  obtain dd where dd: "w = r + dd" using r1 by (metis le_Suc_ex le_trans)
  have b: "d1 \<le> dd" "dd \<le> C" using d1 dd r1 d by auto
  have lt: "r mod C < C" using C by simp
  have m1: "r1 mod C = (if r mod C + d1 < C then r mod C + d1 else r mod C + d1 - C)"
    unfolding d1 using C b by (intro mod_shift) auto
  have mw: "w mod C = (if r mod C + dd < C then r mod C + dd else r mod C + dd - C)"
    unfolding dd using C b by (intro mod_shift) auto
  have e1: "w - r1 = dd - d1" "w - r = dd" using d1 dd by auto
  show ?thesis
    unfolding Occ_def e1 m1 mw using b lt by (auto split: if_splits)
qed

lemma frames_agree:
  assumes "frames a C r w fs" "w - r \<le> C" "0 < C" "agree (Occ C r w) a b"
  shows "frames b C r w fs"
  using assms
proof (induction fs arbitrary: r)
  case Nil then show ?case by simp
next
  case (Cons p ps)
  let ?rm = "r mod C"
  let ?sk = "skipped a C r"
  let ?r0 = "frame_start a C r"
  let ?r1 = "?r0 + 4 + length p"
  from Cons.prems(1) have
    sk: "?sk \<longrightarrow> meta_at a ?rm = skip_header (C - ?rm) \<and> C - ?rm < 2 ^ 31"
    and hd: "meta_at a (?r0 mod C) = data_header (length p)"
    and ln: "length p < 2 ^ 31"
    and fit: "?r0 mod C + 4 + length p \<le> C"
    and pl: "load a (?r0 mod C + 4) (length p) = p"
    and tl: "frames a C ?r1 w ps"
    by simp_all
  have C: "0 < C" by fact
  have lt: "?rm < C" using C by simp
  have r1w: "?r1 \<le> w" using frames_le [OF tl] .
  have rr0: "r \<le> ?r0" by (simp add: frame_start_def)
  have r0e: "?r0 = (if ?sk then r + (C - ?rm) else r)" by (simp add: frame_start_def)
  have wr: "w - r \<le> C" by fact
  have ag: "agree (Occ C r w) a b" by fact
  have h1: "{?rm ..< ?rm + 4} \<subseteq> Occ C r w"
    using r1w lt r0e by (auto simp: Occ_def split: if_splits)
  have m1: "meta_at b ?rm = meta_at a ?rm"
    using meta_at_agree [OF ag h1] by simp
  have r0m: "?r0 mod C = (if ?sk then 0 else ?rm)"
    using mod_to_end [OF C, of r] by (simp add: frame_start_def)
  have h2: "{?r0 mod C ..< ?r0 mod C + 4 + length p} \<subseteq> Occ C r w"
  proof (cases ?sk)
    case False
    then show ?thesis using r1w lt fit r0e by (auto simp: Occ_def split: if_splits)
  next
    case True
    then have r0: "?r0 = r + (C - ?rm)" by (simp add: frame_start_def)
    define d where "d = w - ?r0"
    have w: "w = ?r0 + d" using r1w by (simp add: d_def)
    have dl: "4 + length p \<le> d" using r1w by (simp add: d_def)
    have r1w': "r + (C - ?rm) + 4 + length p \<le> w" using r1w r0 by simp
    have dC: "d < C" unfolding d_def r0 using wr lt r1w' by linarith
    have "w mod C = (?r0 mod C + d) mod C" by (subst w) (simp add: mod_add_left_eq)
    also have "\<dots> = d" using r0m True dC by simp
    finally have wm: "w mod C = d" .
    have wrap: "\<not> ?rm + (w - r) \<le> C" using r1w' lt by linarith
    show ?thesis using wrap wm dl r0m True by (auto simp: Occ_def)
  qed
  have m2: "meta_at b (?r0 mod C) = meta_at a (?r0 mod C)"
    using h2 by (intro meta_at_agree [OF ag, symmetric]) auto
  have m3: "load b (?r0 mod C + 4) (length p) = load a (?r0 mod C + 4) (length p)"
    using h2 by (intro load_agree [OF ag, symmetric]) auto
  have sub: "Occ C ?r1 w \<subseteq> Occ C r w"
    using r1w rr0 by (intro Occ_mono [OF C _ _ wr]) auto
  have tl': "frames b C ?r1 w ps"
  proof (rule Cons.IH [OF tl _ C])
    show "w - ?r1 \<le> C" using wr rr0 by linarith
    show "agree (Occ C ?r1 w) a b" using agree_mono [OF ag sub] .
  qed
  have sk': "skipped b C r = ?sk" by (simp add: skipped_def m1)
  then have r0': "frame_start b C r = ?r0" by (simp add: frame_start_def)
  show ?case
    using sk hd ln fit pl tl' m1 m2 m3 by (simp add: sk' r0')
qed

lemma pos_ok: "cap q \<noteq> 0 \<Longrightarrow> pos q x = Inr (x mod cap q)"
  by (simp add: pos_def)

lemma unat_pos: "unat (x mod cap q) = unat x mod unat (cap q)"
  by (simp add: unat_mod)

lemma readMeta_ok:
  "wf_Queue q \<Longrightarrow> unat x < unat (cap q) \<Longrightarrow> readMeta q x = Inr (meta_at (array (mem q)) (unat x))"
  by (simp add: readMeta_def wf_Queue_def meta_at_def)

lemma writeMeta_ok:
  "wf_Queue q \<Longrightarrow> unat x < unat (cap q) \<Longrightarrow>
   writeMeta q x m = Inr (q\<lparr>mem := (mem q)\<lparr>array := store (array (mem q)) (unat x) (int32_bytes m)\<rparr>\<rparr>)"
  by (simp add: writeMeta_def wf_Queue_def)

lemma scast_data_header: "n < 2 ^ 31 \<Longrightarrow> (scast (data_header n) :: uint64) = of_nat n"
  by (simp add: data_header_def scast_of_nat32)

lemma data_header_not_neg: "n < 2 ^ 31 \<Longrightarrow> \<not> data_header n <s 0"
  by (simp add: data_header_def not_neg_of_nat32)

lemma scast_neg_skip_header: "n < 2 ^ 31 \<Longrightarrow> (scast (- skip_header n) :: uint64) = of_nat n"
  by (simp add: skip_header_def scast_of_nat32)

lemma Pop_meta_Inv:
  assumes inv: "Inv q (p # ps)"
  defines "a \<equiv> array (mem q)" and "C \<equiv> unat (cap q)" and "R \<equiv> unat (readPtr q)"
  shows "\<exists>rp. Pop_meta q = Inr (rp, data_header (length p)) \<and> unat rp = frame_start a C R"
proof -
  let ?W = "unat (writePtr q)"
  let ?r0 = "frame_start a C R"
  from inv have wf: "wf_Queue q" and RW: "R \<le> ?W" and occ: "?W - R \<le> C"
    and fr: "frames a C R ?W (p # ps)"
    by (simp_all add: Inv_def a_def C_def R_def)
  from fr have
    sk: "skipped a C R \<longrightarrow> meta_at a (R mod C) = skip_header (C - R mod C) \<and> C - R mod C < 2 ^ 31"
    and hd: "meta_at a (?r0 mod C) = data_header (length p)"
    and ln: "length p < 2 ^ 31"
    and fit: "?r0 mod C + 4 + length p \<le> C"
    and tl: "frames a C (?r0 + 4 + length p) ?W ps"
    by simp_all
  have r1w: "?r0 + 4 + length p \<le> ?W" using frames_le [OF tl] .
  have rr0: "R \<le> ?r0" by (simp add: frame_start_def)
  have C0: "0 < C" using r1w rr0 occ by linarith
  then have cap0: "cap q \<noteq> 0" by (auto simp: C_def)
  have lt: "R mod C < C" using C0 by simp
  have p1: "pos q (readPtr q) = Inr (readPtr q mod cap q)" using cap0 by (rule pos_ok)
  have u1: "unat (readPtr q mod cap q) = R mod C" by (simp add: unat_pos R_def C_def)
  have m1: "readMeta q (readPtr q mod cap q) = Inr (meta_at a (R mod C))"
    using readMeta_ok [OF wf, of "readPtr q mod cap q"] lt u1 by (simp add: a_def C_def)
  show ?thesis
  proof (cases "skipped a C R")
    case False
    then have "\<not> meta_at a (R mod C) <s 0" by (simp add: skipped_def)
    moreover have "?r0 = R" using False by (simp add: frame_start_def)
    ultimately show ?thesis
      using p1 m1 hd by (simp add: Pop_meta_def Let_def R_def)
  next
    case True
    then have neg: "meta_at a (R mod C) <s 0" by (simp add: skipped_def)
    have mv: "meta_at a (R mod C) = skip_header (C - R mod C)" and sl: "C - R mod C < 2 ^ 31"
      using sk True by simp_all
    have r0: "?r0 = R + (C - R mod C)" using True by (simp add: frame_start_def)
    have sc: "(scast (- meta_at a (R mod C)) :: uint64) = of_nat (C - R mod C)"
      unfolding mv using sl by (rule scast_neg_skip_header)
    let ?rp1 = "readPtr q + of_nat (C - R mod C)"
    have bound: "R + (C - R mod C) < 18446744073709551616"
      using r1w r0 unat_lt64 [of "writePtr q"] by linarith
    have u2: "unat ?rp1 = R + (C - R mod C)"
      using bound by (subst unat_add64) (simp_all add: unat_of_nat64 R_def)
    have p2: "pos q ?rp1 = Inr (?rp1 mod cap q)" using cap0 by (rule pos_ok)
    have u3: "unat (?rp1 mod cap q) = ?r0 mod C"
      unfolding unat_pos u2 r0 by (simp add: C_def)
    have z: "?r0 mod C = 0" unfolding r0 using mod_to_end [OF C0] .
    have m2: "readMeta q (?rp1 mod cap q) = Inr (meta_at a (?r0 mod C))"
      using readMeta_ok [OF wf, of "?rp1 mod cap q"] u3 z C0 by (simp add: a_def C_def)
    have nn: "\<not> meta_at a (?r0 mod C) <s 0"
      unfolding hd using ln by (rule data_header_not_neg)
    show ?thesis
      using p1 m1 neg sc p2 m2 nn hd u2 r0
      by (simp add: Pop_meta_def Let_def)
  qed
qed

lemma Pop_Inv_Cons:
  assumes inv: "Inv q (p # ps)"
  shows "\<exists>q'. Pop q dst = (Inr (dst @ p), q') \<and> Inv q' ps
           \<and> mem q' = mem q \<and> writePtr q' = writePtr q \<and> cap q' = cap q
           \<and> unat (readPtr q) \<le> unat (readPtr q')
           \<and> unat (readPtr q') =
               frame_start (array (mem q)) (unat (cap q)) (unat (readPtr q)) + 4 + length p"
proof -
  let ?a = "array (mem q)" and ?C = "unat (cap q)" and ?R = "unat (readPtr q)"
  let ?W = "unat (writePtr q)"
  let ?r0 = "frame_start ?a ?C ?R"
  let ?n = "length p"
  from inv have wf: "wf_Queue q" and RW: "?R \<le> ?W" and occ: "?W - ?R \<le> ?C"
    and fr: "frames ?a ?C ?R ?W (p # ps)"
    by (simp_all add: Inv_def)
  from fr have ln: "?n < 2 ^ 31"
    and fit: "?r0 mod ?C + 4 + ?n \<le> ?C"
    and pl: "load ?a (?r0 mod ?C + 4) ?n = p"
    and tl: "frames ?a ?C (?r0 + 4 + ?n) ?W ps"
    by simp_all
  have r1w: "?r0 + 4 + ?n \<le> ?W" using frames_le [OF tl] .
  have rr0: "?R \<le> ?r0" by (simp add: frame_start_def)
  have C0: "0 < ?C" using r1w rr0 occ by linarith
  then have cap0: "cap q \<noteq> 0" by auto
  have ne: "\<not> IsEmpty q"
  proof
    assume "IsEmpty q"
    then have "?R = ?W" by (simp add: IsEmpty_def)
    with r1w rr0 show False by linarith
  qed
  from Pop_meta_Inv [OF inv] obtain rp where
    pm: "Pop_meta q = Inr (rp, data_header ?n)" and urp: "unat rp = ?r0"
    by blast
  have Wlt: "?W < 18446744073709551616" by (rule unat_lt64)
  have C63: "?C + 3 < 9223372036854775808" using wf by (simp add: wf_Queue_def)
  let ?rp4 = "rp + ElementMetaSize"
  have u4: "unat ?rp4 = ?r0 + 4"
    using r1w Wlt urp by (subst unat_add64) (simp_all add: ElementMetaSize_def)
  have ds: "(scast (data_header ?n) :: uint64) = of_nat ?n"
    using ln by (rule scast_data_header)
  have un: "unat (of_nat ?n :: uint64) = ?n" using ln by (intro unat_of_nat64) simp
  have p4: "pos q ?rp4 = Inr (?rp4 mod cap q)" using cap0 by (rule pos_ok)
  let ?z = "(?r0 + 4) mod ?C"
  have uz: "unat (?rp4 mod cap q) = ?z" by (simp add: unat_pos u4)
  have zlt: "?z < ?C" using C0 by simp
  have uzn: "unat (?rp4 mod cap q + of_nat ?n) = ?z + ?n"
    using zlt C63 ln by (subst unat_add64) (simp_all add: uz un)
  have zcases: "?n = 0 \<or> ?z = ?r0 mod ?C + 4"
  proof (cases "?n = 0")
    case False
    then have "?r0 mod ?C + 4 < ?C" using fit by linarith
    then have "?z = ?r0 mod ?C + 4"
      using mod_shift [OF C0, of 4 ?r0] by (simp split: if_splits)
    then show ?thesis ..
  qed simp
  have zb: "?z + ?n \<le> ?C + 3"
  proof (cases "?n = 0")
    case True then show ?thesis using zlt by linarith
  next
    case False
    then have "?z = ?r0 mod ?C + 4" using zcases by blast
    then show ?thesis using fit by linarith
  qed
  have data: "load ?a ?z ?n = p" using zcases pl by (auto simp: load_def)
  have sl: "slice_of q (?rp4 mod cap q) (?rp4 mod cap q + of_nat ?n) = Inr p"
    using zb wf data by (simp add: slice_of_def uz uzn wf_Queue_def)
  let ?q' = "q\<lparr>readPtr := ?rp4 + of_nat ?n\<rparr>"
  have ur: "unat (?rp4 + of_nat ?n) = ?r0 + 4 + ?n"
    using r1w Wlt by (subst unat_add64) (simp_all add: u4 un)
  have pop: "Pop q dst = (Inr (dst @ p), ?q')"
    using ne pm p4 sl by (simp add: Pop_def Let_def ds)
  have inv': "Inv ?q' ps"
    using wf tl r1w occ rr0 by (simp add: Inv_def wf_Queue_def ur)
  show ?thesis
    using pop inv' ur rr0 by (intro exI [of _ ?q']) simp
qed

lemma Pop_Inv_Nil:
  assumes "Inv q []"
  shows "Pop q dst = (Inl ErrEmpty, q)"
proof -
  from assms have "unat (readPtr q) = unat (writePtr q)" by (simp add: Inv_def)
  then have "readPtr q = writePtr q" by (simp add: word_unat_eq_iff)
  then show ?thesis by (simp add: Pop_def IsEmpty_def)
qed

lemma Push_skip_eval:
  assumes wf: "wf_Queue q"
    and C0: "0 < unat (cap q)"
    and ln: "length buf < 2 ^ 31"
    and sk: "tail_short (unat (cap q)) (unat (writePtr q)) (length buf) \<longrightarrow>
               unat (cap q) - unat (writePtr q) mod unat (cap q) < 2 ^ 31"
    and nov: "effective_position (unat (cap q)) (unat (writePtr q)) (length buf) < 2 ^ 64"
  shows "\<exists>wp. Push_skip q buf =
           (Inr (wp, wp + ElementMetaSize + of_nat (length buf)),
            if tail_short (unat (cap q)) (unat (writePtr q)) (length buf)
            then q\<lparr>mem := (mem q)\<lparr>array := store (array (mem q))
                    (unat (writePtr q) mod unat (cap q))
                    (int32_bytes (skip_header (unat (cap q) - unat (writePtr q) mod unat (cap q))))\<rparr>\<rparr>
            else q)
         \<and> unat wp = effective_position (unat (cap q)) (unat (writePtr q)) (length buf)"
proof -
  let ?a = "array (mem q)" and ?C = "unat (cap q)" and ?W = "unat (writePtr q)"
  let ?n = "length buf"
  let ?pw = "?W mod ?C"
  have cap0: "cap q \<noteq> 0" using C0 by auto
  have lt: "?pw < ?C" using C0 by simp
  have C63: "?C + 3 < 9223372036854775808" using wf by (simp add: wf_Queue_def)
  have p1: "pos q (writePtr q) = Inr (writePtr q mod cap q)" using cap0 by (rule pos_ok)
  have u1: "unat (writePtr q mod cap q) = ?pw" by (simp add: unat_pos)
  have ut: "unat (cap q - writePtr q mod cap q) = ?C - ?pw"
    using lt by (subst unat_sub64) (simp_all add: u1)
  have un: "unat (of_nat ?n :: uint64) = ?n" using ln by (intro unat_of_nat64) simp
  have uc: "unat (of_nat ?n + ElementMetaSize :: uint64) = ?n + 4"
    using ln by (subst unat_add64) (simp_all add: un ElementMetaSize_def)
  have cond: "(cap q - writePtr q mod cap q < of_nat ?n + ElementMetaSize)
                = tail_short ?C ?W ?n"
    unfolding word_less_nat_alt ut uc tail_short_def by auto
  show ?thesis
  proof (cases "tail_short ?C ?W ?n")
    case False
    then show ?thesis
      using p1 cond by (simp add: Push_skip_def Let_def effective_position_def)
  next
    case True
    then have tl: "?C - ?pw < 2 ^ 31" using sk by simp
    have s32: "(ucast (cap q - writePtr q mod cap q) :: int32) = of_nat (?C - ?pw)"
      by (simp only: ucast_64_32 ut)
    have neg: "- (of_nat (?C - ?pw) :: int32) = skip_header (?C - ?pw)"
      by (simp only: skip_header_def)
    have sc: "(scast (of_nat (?C - ?pw) :: int32) :: uint64) = of_nat (?C - ?pw)"
      using tl by (intro scast_of_nat32) simp
    have wm: "writeMeta q (writePtr q mod cap q) (skip_header (?C - ?pw)) =
        Inr (q\<lparr>mem := (mem q)\<lparr>array := store ?a ?pw (int32_bytes (skip_header (?C - ?pw)))\<rparr>\<rparr>)"
      using writeMeta_ok [OF wf, of "writePtr q mod cap q"] lt by (simp add: u1)
    have ep: "effective_position ?C ?W ?n = ?W + (?C - ?pw)"
      using True by (simp add: effective_position_def)
    have uw: "unat (writePtr q + of_nat (?C - ?pw)) = ?W + (?C - ?pw)"
      using nov ep tl by (subst unat_add64) (simp_all add: unat_of_nat64)
    show ?thesis
      using p1 cond True wm uw ep
      by (simp add: Push_skip_def Let_def s32 neg sc)
  qed
qed

lemma Push_eval:
  assumes wf: "wf_Queue q"
    and nf: "IsFull q (of_nat (length buf)) = Inr False"
    and C0: "0 < unat (cap q)"
    and ln: "length buf < 2 ^ 31"
    and sk: "tail_short (unat (cap q)) (unat (writePtr q)) (length buf) \<longrightarrow>
               unat (cap q) - unat (writePtr q) mod unat (cap q) < 2 ^ 31"
    and fit: "effective_position (unat (cap q)) (unat (writePtr q)) (length buf) mod unat (cap q)
                + 4 + length buf \<le> unat (cap q)"
    and nov: "Push_spec_cursor (unat (cap q)) (unat (writePtr q)) (length buf) < 2 ^ 64"
  shows "Push q buf =
           (None, q\<lparr>mem := (mem q)\<lparr>array :=
                      Push_spec_region (array (mem q)) (unat (cap q)) (unat (writePtr q)) buf\<rparr>,
                   writePtr := of_nat (Push_spec_cursor (unat (cap q)) (unat (writePtr q))
                                 (length buf))\<rparr>)"
proof -
  let ?a = "array (mem q)" and ?C = "unat (cap q)" and ?W = "unat (writePtr q)"
  let ?n = "length buf"
  let ?pw = "?W mod ?C"
  let ?ep = "effective_position ?C ?W ?n"
  let ?e = "?ep mod ?C"
  let ?a1 = "if tail_short ?C ?W ?n
             then store ?a ?pw (int32_bytes (skip_header (?C - ?pw))) else ?a"
  let ?q1 = "if tail_short ?C ?W ?n
             then q\<lparr>mem := (mem q)\<lparr>array := store ?a ?pw (int32_bytes (skip_header (?C - ?pw)))\<rparr>\<rparr>
             else q"
  have cap0: "cap q \<noteq> 0" using C0 by auto
  have lt: "?pw < ?C" using C0 by simp
  have elt: "?e < ?C" using C0 by simp
  have C63: "?C + 3 < 9223372036854775808" using wf by (simp add: wf_Queue_def)
  have la: "length ?a = ?C + 3" using wf by (simp add: wf_Queue_def)
  have nov': "?ep < 2 ^ 64" using nov by (simp add: Push_spec_cursor_def)
  from Push_skip_eval [OF wf C0 ln sk nov'] obtain wp where
    ps: "Push_skip q buf = (Inr (wp, wp + ElementMetaSize + of_nat ?n), ?q1)"
    and uwp: "unat wp = ?ep"
    by blast
  have q1a: "array (mem ?q1) = ?a1" by simp
  have la1: "length ?a1 = ?C + 3" using la lt by (simp add: length_store length_int32_bytes)
  have q1c: "cap ?q1 = cap q" "slen (mem ?q1) = slen (mem q)" by simp_all
  have wf1: "wf_Queue ?q1"
    using wf la1 unfolding wf_Queue_def q1a q1c by simp
  have p2: "pos ?q1 wp = Inr (wp mod cap q)"
    using cap0 pos_ok [of ?q1 wp] by (simp only: q1c) simp
  have ue: "unat (wp mod cap q) = ?e" by (simp add: unat_pos uwp)
  have dh: "(of_nat ?n :: int32) = data_header ?n" by (simp add: data_header_def)
  let ?a2 = "store ?a1 ?e (int32_bytes (data_header ?n))"
  let ?q2 = "?q1\<lparr>mem := (mem ?q1)\<lparr>array := ?a2\<rparr>\<rparr>"
  have wm: "writeMeta ?q1 (wp mod cap q) (data_header ?n) = Inr ?q2"
    using writeMeta_ok [OF wf1, of "wp mod cap q" "data_header ?n"] elt
    unfolding q1c ue q1a by simp
  have la2: "length ?a2 = ?C + 3"
    using la1 elt by (simp add: length_store length_int32_bytes)
  have un: "unat (of_nat ?n :: uint64) = ?n" using ln by (intro unat_of_nat64) simp
  have u4: "unat (wp mod cap q + ElementMetaSize) = ?e + 4"
    using elt C63 by (subst unat_add64) (simp_all add: ue ElementMetaSize_def)
  have u5: "unat (wp mod cap q + ElementMetaSize + of_nat ?n) = ?e + 4 + ?n"
    using fit C63 by (subst unat_add64) (simp_all add: u4 un)
  let ?a3 = "store ?a2 (?e + 4) buf"
  have ct: "copy_to ?q2 (wp mod cap q + ElementMetaSize)
              (wp mod cap q + ElementMetaSize + of_nat ?n) buf
            = Inr (?q2\<lparr>mem := (mem ?q2)\<lparr>array := ?a3\<rparr>\<rparr>)"
    unfolding copy_to_def u4 u5 using fit la2 by simp
  have wn: "wp + ElementMetaSize + of_nat ?n = of_nat (Push_spec_cursor ?C ?W ?n)"
  proof -
    have "wp = of_nat ?ep" using uwp by (metis of_nat_unat ucast_id)
    then show ?thesis by (simp add: Push_spec_cursor_def ElementMetaSize_def)
  qed
  have reg: "?a3 = Push_spec_region ?a ?C ?W buf"
    by (simp add: Push_spec_region_def Let_def)
  have "Push q buf = (None, ?q2\<lparr>mem := (mem ?q2)\<lparr>array := ?a3\<rparr>,
                        writePtr := wp + ElementMetaSize + of_nat ?n\<rparr>)"
    unfolding Push_def nf ps using p2 wm ct by (simp add: dh)
  then show ?thesis
    unfolding wn reg by (simp split: if_splits)
qed

section \<open>Push keeps the layout\<close>

lemma load_store_other:
  assumes "i + length bs \<le> length a" "k + n \<le> i \<or> i + length bs \<le> k"
  shows "load (store a i bs) k n = load a k n"
proof -
  have "{k ..< k + n} \<inter> {i ..< i + length bs} = {}" using assms(2) by auto
  from agree_store [OF assms(1) this] have "agree {k ..< k + n} a (store a i bs)" .
  from load_agree [OF this] show ?thesis by simp
qed

lemma meta_at_store_other:
  "i + length bs \<le> length a \<Longrightarrow> j + 4 \<le> i \<or> i + length bs \<le> j \<Longrightarrow>
   meta_at (store a i bs) j = meta_at a j"
  by (simp add: meta_at_def load_store_other)

text \<open>Where an admitted frame goes, in terms of the physical positions.\<close>

lemma placement:
  fixes C R W n :: nat
  assumes RW: "R \<le> W" and nf: "\<not> IsFull_spec C R W n"
  defines "pr \<equiv> R mod C" and "pw \<equiv> W mod C"
  shows "0 < C \<and> W - R + (4 + n) \<le> C \<and> pr < C \<and> pw < C \<and>
         ((pw = pr + (W - R) \<and> \<not> tail_short C W n \<and> pw + (4 + n) \<le> C)
        \<or> (pw = pr + (W - R) \<and> tail_short C W n \<and> 4 + n \<le> pr)
        \<or> (pw + C = pr + (W - R) \<and> \<not> tail_short C W n \<and> pw + (4 + n) \<le> pr))"
proof -
  from nf have occ: "W - R + (4 + n) \<le> C" using RW
    by (auto simp: IsFull_spec_def split: if_splits)
  then have C0: "0 < C" by simp
  have lt: "pr < C" "pw < C" using C0 by (simp_all add: pr_def pw_def)
  obtain d where d: "W = R + d" using RW by (metis le_Suc_ex)
  have dC: "d \<le> C" using occ d by simp
  have pw: "pw = (if pr + d < C then pr + d else pr + d - C)"
    unfolding pw_def pr_def d using mod_shift [OF C0 dC] by simp
  have wr: "W - R = d" using d by simp
  from nf have pl: "if pr \<le> pw then pw + (4 + n) \<le> C \<or> 4 + n \<le> pr else pw + (4 + n) \<le> pr"
    using occ RW by (auto simp: IsFull_spec_def Let_def pr_def pw_def split: if_splits)
  have ts: "tail_short C W n = (C < pw + (4 + n))"
    using lt by (auto simp: tail_short_def pw_def)
  show ?thesis
  proof (cases "pr + d < C")
    case True
    then have e: "pw = pr + d" using pw by simp
    then have "pr \<le> pw" by simp
    with pl have "pw + (4 + n) \<le> C \<or> 4 + n \<le> pr" by simp
    then show ?thesis using C0 occ lt e wr ts by auto
  next
    case False
    then have e: "pw + C = pr + d" using pw by simp
    have "d < C" using occ wr by simp
    then have "pw < pr" using e by simp
    with pl have "pw + (4 + n) \<le> pr" by simp
    then show ?thesis using C0 occ lt e wr ts by auto
  qed
qed

lemma effective_position_mod:
  "0 < C \<Longrightarrow> effective_position C W n mod C = (if tail_short C W n then 0 else W mod C)"
  using mod_to_end [of C W] by (simp add: effective_position_def)

lemma length_Push_spec_region:
  assumes la: "length a = C + 3" and C0: "0 < C"
    and fit: "effective_position C W (length buf) mod C + 4 + length buf \<le> C"
  shows "length (Push_spec_region a C W buf) = C + 3"
proof -
  have lt: "W mod C < C" using C0 by simp
  let ?a1 = "if tail_short C W (length buf)
             then store a (W mod C) (int32_bytes (skip_header (C - W mod C))) else a"
  have l1: "length ?a1 = C + 3" using la lt by (simp add: length_store length_int32_bytes)
  let ?e = "effective_position C W (length buf) mod C"
  have l2: "length (store ?a1 ?e (int32_bytes (data_header (length buf)))) = C + 3"
    using l1 fit by (subst length_store) (simp_all add: length_int32_bytes)
  show ?thesis
    unfolding Push_spec_region_def Let_def using l2 fit by (subst length_store) simp_all
qed

lemma Push_spec_region_agree:
  assumes la: "length a = C + 3" and RW: "R \<le> W"
    and nf: "\<not> IsFull_spec C R W (length buf)"
  shows "agree (Occ C R W) a (Push_spec_region a C W buf)"
proof -
  let ?n = "length buf" and ?pr = "R mod C" and ?pw = "W mod C"
  let ?S = "Occ C R W"
  from placement [OF RW nf] have C0: "0 < C" and occ: "W - R + (4 + ?n) \<le> C"
    and lt: "?pr < C" "?pw < C"
    and pl: "(?pw = ?pr + (W - R) \<and> \<not> tail_short C W ?n \<and> ?pw + (4 + ?n) \<le> C)
        \<or> (?pw = ?pr + (W - R) \<and> tail_short C W ?n \<and> 4 + ?n \<le> ?pr)
        \<or> (?pw + C = ?pr + (W - R) \<and> \<not> tail_short C W ?n \<and> ?pw + (4 + ?n) \<le> ?pr)"
    by simp_all
  let ?a1 = "if tail_short C W ?n
             then store a ?pw (int32_bytes (skip_header (C - ?pw))) else a"
  let ?e = "effective_position C W ?n mod C"
  have e: "?e = (if tail_short C W ?n then 0 else ?pw)" using C0 by (rule effective_position_mod)
  let ?a2 = "store ?a1 ?e (int32_bytes (data_header ?n))"
  let ?a3 = "store ?a2 (?e + 4) buf"
  have fit: "?e + 4 + ?n \<le> C"
  proof (cases "tail_short C W ?n")
    case True
    then have "?e = 0" "4 + ?n \<le> ?pr" using e pl by auto
    then show ?thesis using lt(1) by linarith
  next
    case False
    then have "?e = ?pw" "?pw + (4 + ?n) \<le> C \<or> ?pw + (4 + ?n) \<le> ?pr" using e pl by auto
    then show ?thesis using lt(1) by linarith
  qed
  have l1: "length ?a1 = C + 3" using la lt by (simp add: length_store length_int32_bytes)
  have l2: "length ?a2 = C + 3"
    using l1 fit by (subst length_store) (simp_all add: length_int32_bytes)
  have S: "?S \<subseteq> (if ?pw = ?pr + (W - R) then {?pr ..< ?pw} else {?pr ..< C + 3} \<union> {0 ..< ?pw})"
  proof (cases "?pw = ?pr + (W - R)")
    case True
    then have "?pr + (W - R) \<le> C" using lt(2) by linarith
    then show ?thesis using True by (simp add: Occ_def)
  next
    case False
    have "?pr + (W - R) \<le> C \<Longrightarrow> {?pr ..< ?pr + (W - R)} \<subseteq> {?pr ..< C + 3}" by auto
    then show ?thesis using False by (auto simp: Occ_def)
  qed
  have d1: "?S \<inter> {?pw ..< ?pw + 4} = {}" if T: "tail_short C W ?n"
  proof -
    from pl T have "?pw = ?pr + (W - R)" by auto
    with S have "?S \<subseteq> {?pr ..< ?pw}" by simp
    then show ?thesis by auto
  qed
  have d2: "?S \<inter> {?e ..< ?e + (4 + ?n)} = {}"
  proof (cases "tail_short C W ?n")
    case True
    with pl have u: "?pw = ?pr + (W - R)" and c: "4 + ?n \<le> ?pr" by auto
    from u S have "?S \<subseteq> {?pr ..< ?pw}" by simp
    moreover have "?e = 0" using e True by simp
    ultimately show ?thesis using c by auto
  next
    case False
    then have ee: "?e = ?pw" using e by simp
    show ?thesis
    proof (cases "?pw = ?pr + (W - R)")
      case True
      with S have "?S \<subseteq> {?pr ..< ?pw}" by simp
      then show ?thesis unfolding ee by auto
    next
      case F: False
      with pl False have c: "?pw + (4 + ?n) \<le> ?pr" by auto
      from F S have "?S \<subseteq> {?pr ..< C + 3} \<union> {0 ..< ?pw}" by simp
      then show ?thesis unfolding ee using c by auto
    qed
  qed
  have g1: "agree ?S a ?a1"
  proof (cases "tail_short C W ?n")
    case True
    have "agree ?S a (store a ?pw (int32_bytes (skip_header (C - ?pw))))"
      using la lt(2) d1 [OF True] by (intro agree_store) (simp_all add: length_int32_bytes)
    then show ?thesis using True by simp
  qed (simp add: agree_refl)
  have g2: "agree ?S ?a1 ?a2"
    using l1 fit d2 by (intro agree_store) (auto simp: length_int32_bytes)
  have g3: "agree ?S ?a2 ?a3"
    using l2 fit d2 by (intro agree_store) auto
  have "agree ?S a ?a3" using agree_trans [OF agree_trans [OF g1 g2] g3] .
  then show ?thesis by (simp add: Push_spec_region_def Let_def)
qed

lemma skip_header_neg: "0 < n \<Longrightarrow> n < 2 ^ 31 \<Longrightarrow> skip_header n <s 0"
  by (simp add: skip_header_def neg_of_nat32)

lemma Push_spec_region_frame:
  assumes la: "length a = C + 3" and RW: "R \<le> W"
    and nf: "\<not> IsFull_spec C R W (length buf)"
    and ln: "length buf < 2 ^ 31"
    and sk: "tail_short C W (length buf) \<longrightarrow> C - W mod C < 2 ^ 31"
  shows "frames (Push_spec_region a C W buf) C W (Push_spec_cursor C W (length buf)) [buf]"
proof -
  let ?n = "length buf" and ?pr = "R mod C" and ?pw = "W mod C"
  let ?T = "tail_short C W ?n"
  from placement [OF RW nf] have C0: "0 < C"
    and lt: "?pr < C" "?pw < C"
    and pl: "(?pw = ?pr + (W - R) \<and> \<not> ?T \<and> ?pw + (4 + ?n) \<le> C)
        \<or> (?pw = ?pr + (W - R) \<and> ?T \<and> 4 + ?n \<le> ?pr)
        \<or> (?pw + C = ?pr + (W - R) \<and> \<not> ?T \<and> ?pw + (4 + ?n) \<le> ?pr)"
    by simp_all
  let ?SK = "int32_bytes (skip_header (C - ?pw))"
  let ?H = "int32_bytes (data_header ?n)"
  let ?a1 = "if ?T then store a ?pw ?SK else a"
  let ?e = "effective_position C W ?n mod C"
  have e: "?e = (if ?T then 0 else ?pw)" using C0 by (rule effective_position_mod)
  let ?a2 = "store ?a1 ?e ?H"
  let ?a3 = "store ?a2 (?e + 4) buf"
  have a3: "Push_spec_region a C W buf = ?a3" by (simp add: Push_spec_region_def Let_def)
  have fit: "?e + 4 + ?n \<le> C"
  proof (cases ?T)
    case True
    then have "?e = 0" "4 + ?n \<le> ?pr" using e pl by auto
    then show ?thesis using lt(1) by linarith
  next
    case False
    then have "?e = ?pw" "?pw + (4 + ?n) \<le> C \<or> ?pw + (4 + ?n) \<le> ?pr" using e pl by auto
    then show ?thesis using lt(1) by linarith
  qed
  have l1: "length ?a1 = C + 3" using la lt by (simp add: length_store length_int32_bytes)
  have l2: "length ?a2 = C + 3"
    using l1 fit by (subst length_store) (simp_all add: length_int32_bytes)
  have hd: "meta_at ?a3 ?e = data_header ?n"
  proof -
    have "meta_at ?a3 ?e = meta_at ?a2 ?e"
      using l2 fit by (intro meta_at_store_other) auto
    also have "\<dots> = data_header ?n"
      using l1 fit by (intro meta_at_store_same) auto
    finally show ?thesis .
  qed
  have pl3: "load ?a3 (?e + 4) ?n = buf"
    using l2 fit by (intro load_store_same) auto
  have nn: "\<not> data_header ?n <s 0" using ln by (rule data_header_not_neg)
  have skm: "?T \<Longrightarrow> 4 + ?n \<le> ?pw \<Longrightarrow> meta_at ?a3 ?pw = skip_header (C - ?pw)"
  proof -
    assume True: ?T and cw: "4 + ?n \<le> ?pw"
    have ee: "?e = 0" using e True by simp
    have a1: "?a1 = store a ?pw ?SK" using True by simp
    have "meta_at ?a3 ?pw = meta_at ?a2 ?pw"
      using l2 fit cw unfolding ee by (intro meta_at_store_other) auto
    also have "\<dots> = meta_at ?a1 ?pw"
      using l1 cw C0 unfolding ee by (intro meta_at_store_other) (auto simp: length_int32_bytes)
    also have "\<dots> = skip_header (C - ?pw)"
      unfolding a1 using la lt(2) by (intro meta_at_store_same) auto
    finally show ?thesis .
  qed
  define A where "A = ?a3"
  note hd = hd [folded A_def] and pl3 = pl3 [folded A_def] and skm = skm [folded A_def]
    and a3 = a3 [folded A_def]
  show ?thesis
  proof (cases ?T)
    case False
    then have ee: "?e = ?pw" and ep: "effective_position C W ?n = W"
      using e by (simp_all add: effective_position_def)
    have nsk: "\<not> skipped A C W"
      using hd nn unfolding ee by (simp add: skipped_def)
    then have fs: "frame_start A C W = W" by (simp add: frame_start_def)
    show ?thesis
      unfolding a3 using nsk fs hd pl3 ln fit unfolding ee
      by (simp add: Push_spec_cursor_def ep)
  next
    case True
    then have ee: "?e = 0" and ep: "effective_position C W ?n = W + (C - ?pw)"
      using e by (simp_all add: effective_position_def)
    from pl True have c: "4 + ?n \<le> ?pr" and u: "?pw = ?pr + (W - R)" by auto
    have cw: "4 + ?n \<le> ?pw" using c u by linarith
    have tl: "C - ?pw < 2 ^ 31" using sk True by simp
    have tp: "0 < C - ?pw" using lt(2) by linarith
    have m: "meta_at A ?pw = skip_header (C - ?pw)" using skm [OF True cw] .
    have sk': "skipped A C W"
      unfolding skipped_def m using tp tl by (rule skip_header_neg)
    then have fs: "frame_start A C W = W + (C - ?pw)" by (simp add: frame_start_def)
    have fsm: "frame_start A C W mod C = 0" unfolding fs using C0 by (rule mod_to_end)
    have hd0: "meta_at A 0 = data_header ?n" using hd unfolding ee .
    have pl0: "load A 4 ?n = buf" using pl3 unfolding ee by simp
    have fit0: "4 + ?n \<le> C" using fit unfolding ee by simp
    have "frames A C W (frame_start A C W + 4 + ?n) [buf]"
      unfolding frames.simps fsm using sk' m tl hd0 ln fit0 pl0 by simp
    then show ?thesis unfolding a3 Push_spec_cursor_def ep fs .
  qed
qed

lemma Push_spec_cursor_bounds:
  "W + 4 + n \<le> Push_spec_cursor C W n \<and> Push_spec_cursor C W n < W + 2 * (4 + n)"
  by (auto simp: Push_spec_cursor_def effective_position_def tail_short_def)

lemma IsFull_Inv:
  assumes inv: "Inv q fs" and ln: "length buf < 2 ^ 63"
  shows "IsFull q (of_nat (length buf)) =
           Inr (IsFull_spec (unat (cap q)) (unat (readPtr q)) (unat (writePtr q)) (length buf))"
proof -
  have un: "unat (of_nat (length buf) :: uint64) = length buf"
    using ln by (intro unat_of_nat64) simp
  from inv have "readPtr q \<le> writePtr q"
    and "unat (writePtr q) - unat (readPtr q) \<le> unat (cap q)"
    and "slen (mem q) = unat (cap q)" and "unat (cap q) + 3 < 2 ^ 63"
    by (simp_all add: Inv_def wf_Queue_def word_le_nat_alt)
  from IsFull_refines [OF this, of "of_nat (length buf)"] ln show ?thesis
    by (simp add: un)
qed

lemma Push_full:
  assumes inv: "Inv q fs" and ln: "length buf < 2 ^ 63"
    and full: "IsFull_spec (unat (cap q)) (unat (readPtr q)) (unat (writePtr q)) (length buf)"
  shows "Push q buf = (Some ErrFull, q)"
  using IsFull_Inv [OF inv ln] full by (simp add: Push_def)

lemma Push_admitted:
  assumes inv: "Inv q fs"
    and ln: "length buf < 2 ^ 31"
    and sk: "tail_short (unat (cap q)) (unat (writePtr q)) (length buf) \<longrightarrow>
               unat (cap q) - unat (writePtr q) mod unat (cap q) < 2 ^ 31"
    and nov: "Push_spec_cursor (unat (cap q)) (unat (writePtr q)) (length buf) < 2 ^ 64"
    and nf: "\<not> IsFull_spec (unat (cap q)) (unat (readPtr q)) (unat (writePtr q)) (length buf)"
  defines "q' \<equiv> q\<lparr>mem := (mem q)\<lparr>array :=
                      Push_spec_region (array (mem q)) (unat (cap q)) (unat (writePtr q)) buf\<rparr>,
                   writePtr := of_nat (Push_spec_cursor (unat (cap q)) (unat (writePtr q))
                                 (length buf))\<rparr>"
  shows "Push q buf = (None, q')" and "Inv q' (fs @ [buf])"
    and "unat (writePtr q') = Push_spec_cursor (unat (cap q)) (unat (writePtr q)) (length buf)"
proof -
  let ?a = "array (mem q)" and ?C = "unat (cap q)" and ?R = "unat (readPtr q)"
  let ?W = "unat (writePtr q)" and ?n = "length buf"
  let ?W' = "Push_spec_cursor ?C ?W ?n"
  let ?a' = "Push_spec_region ?a ?C ?W buf"
  from inv have wf: "wf_Queue q" and RW: "?R \<le> ?W" and occ: "?W - ?R \<le> ?C"
    and fr: "frames ?a ?C ?R ?W fs"
    by (simp_all add: Inv_def)
  have la: "length ?a = ?C + 3" using wf by (simp add: wf_Queue_def)
  from placement [OF RW nf] have C0: "0 < ?C"
    and occ': "?W - ?R + (4 + ?n) \<le> ?C"
    and lt: "?R mod ?C < ?C" "?W mod ?C < ?C"
    and pl: "(?W mod ?C = ?R mod ?C + (?W - ?R) \<and> \<not> tail_short ?C ?W ?n \<and> ?W mod ?C + (4 + ?n) \<le> ?C)
        \<or> (?W mod ?C = ?R mod ?C + (?W - ?R) \<and> tail_short ?C ?W ?n \<and> 4 + ?n \<le> ?R mod ?C)
        \<or> (?W mod ?C + ?C = ?R mod ?C + (?W - ?R) \<and> \<not> tail_short ?C ?W ?n \<and> ?W mod ?C + (4 + ?n) \<le> ?R mod ?C)"
    by simp_all
  let ?e = "effective_position ?C ?W ?n mod ?C"
  have e: "?e = (if tail_short ?C ?W ?n then 0 else ?W mod ?C)"
    using C0 by (rule effective_position_mod)
  have fit: "?e + 4 + ?n \<le> ?C"
  proof (cases "tail_short ?C ?W ?n")
    case True
    then have "?e = 0" "4 + ?n \<le> ?R mod ?C" using e pl by auto
    then show ?thesis using lt(1) by linarith
  next
    case False
    then have "?e = ?W mod ?C"
      "?W mod ?C + (4 + ?n) \<le> ?C \<or> ?W mod ?C + (4 + ?n) \<le> ?R mod ?C" using e pl by auto
    then show ?thesis using lt(1) by linarith
  qed
  have ln63: "?n < 2 ^ 63" using ln by simp
  have nfw: "IsFull q (of_nat ?n) = Inr False"
    using IsFull_Inv [OF inv ln63] nf by simp
  show push: "Push q buf = (None, q')"
    unfolding q'_def by (rule Push_eval [OF wf nfw C0 ln sk fit nov])
  show uw: "unat (writePtr q') = ?W'"
    using nov by (simp add: q'_def unat_of_nat64)
  have la': "length ?a' = ?C + 3" using la C0 fit by (rule length_Push_spec_region)
  have wf': "wf_Queue q'" using wf la' by (simp add: wf_Queue_def q'_def)
  have W': "?W' = (if tail_short ?C ?W ?n then ?W + (?C - ?W mod ?C) else ?W) + 4 + ?n"
    by (simp add: Push_spec_cursor_def effective_position_def)
  have WW': "?W \<le> ?W'" using Push_spec_cursor_bounds [of ?W ?n ?C] by linarith
  have occ2: "?W' - ?R \<le> ?C"
  proof (cases "tail_short ?C ?W ?n")
    case True
    with pl have "?W mod ?C = ?R mod ?C + (?W - ?R)" "4 + ?n \<le> ?R mod ?C" by auto
    then show ?thesis unfolding W' using True RW lt by simp
  next
    case False
    then show ?thesis unfolding W' using occ' RW by simp
  qed
  have ag: "agree (Occ ?C ?R ?W) ?a ?a'" using la RW nf by (rule Push_spec_region_agree)
  have f1: "frames ?a' ?C ?R ?W fs" using fr occ C0 ag by (rule frames_agree)
  have f2: "frames ?a' ?C ?W ?W' [buf]" using la RW nf ln sk by (rule Push_spec_region_frame)
  have f3: "frames ?a' ?C ?R ?W' (fs @ [buf])" using f1 f2 by (rule frames_append)
  show "Inv q' (fs @ [buf])"
    unfolding Inv_def using wf' uw f3 occ2 RW WW' by (simp add: q'_def)
qed

section \<open>Sequences of calls keep the layout\<close>

lemma NewQueue_Inv:
  assumes "NewQueue c = Inr q"
  shows "Inv q []" and "readPtr q = 0" and "writePtr q = 0" and "cap q = c"
proof -
  from assms have ok: "\<not> 2 ^ 63 \<le> unat (c + 3)" and le: "unat c \<le> unat (c + 3)"
    and q: "q = \<lparr>readPtr = 0, writePtr = 0, cap = c,
      mem = \<lparr>array = replicate (unat (c + 3)) 0, slen = unat c\<rparr>\<rparr>"
    by (auto simp: NewQueue_def make_bytes_def split: if_splits)
  have lt: "unat c < 2 ^ 64" using unsigned_less [of c] by simp
  have m: "unat (c + 3) = (unat c + 3) mod 2 ^ 64" by (simp add: unat_word_ariths)
  have e: "unat (c + 3) = unat c + 3"
  proof (cases "unat c + 3 < 2 ^ 64")
    case True
    with m show ?thesis by simp
  next
    case False
    then have "(unat c + 3) mod 2 ^ 64 = unat c + 3 - 2 ^ 64"
      using lt by (subst le_mod_geq) auto
    with m le lt show ?thesis by simp
  qed
  show "Inv q []" using ok e by (simp add: Inv_def wf_Queue_def q)
  show "readPtr q = 0" "writePtr q = 0" "cap q = c" by (simp_all add: q)
qed

lemma run_append:
  "run q (xs @ ys) = (case run q xs of Inl e \<Rightarrow> Inl e | Inr q1 \<Rightarrow> run q1 ys)"
proof (induction xs arbitrary: q)
  case Nil then show ?case by simp
next
  case (Cons x xs)
  then show ?case
    by (cases x) (auto split: prod.splits option.splits sum.splits)
qed

lemma small_op_Push:
  assumes "length buf + 4 \<le> 2 ^ 31"
  shows "length buf < 2 ^ 31"
    and "tail_short C W (length buf) \<longrightarrow> C - W mod C < 2 ^ 31"
  using assms by (auto simp: tail_short_def)

text \<open>One call keeps the layout and does not move a cursor back.\<close>

lemma Push_step:
  assumes inv: "Inv q fs" and sm: "length buf + 4 \<le> 2 ^ 31"
    and bud: "unat (writePtr q) + 2 * (length buf + 4) \<le> 2 ^ 64"
  shows "\<exists>q' fs'. (Push q buf = (None, q') \<or> Push q buf = (Some ErrFull, q')) \<and> Inv q' fs'
           \<and> readPtr q' = readPtr q \<and> cap q' = cap q
           \<and> unat (writePtr q) \<le> unat (writePtr q')
           \<and> unat (writePtr q') < unat (writePtr q) + 2 * (length buf + 4)"
proof (cases "IsFull_spec (unat (cap q)) (unat (readPtr q)) (unat (writePtr q)) (length buf)")
  case True
  have "length buf < 2 ^ 63" using sm by simp
  from Push_full [OF inv this True] inv show ?thesis by auto
next
  case False
  let ?C = "unat (cap q)" and ?W = "unat (writePtr q)" and ?n = "length buf"
  have b: "?W + 4 + ?n \<le> Push_spec_cursor ?C ?W ?n" "Push_spec_cursor ?C ?W ?n < ?W + 2 * (4 + ?n)"
    using Push_spec_cursor_bounds [of ?W ?n ?C] by simp_all
  have nov: "Push_spec_cursor ?C ?W ?n < 2 ^ 64" using b bud by simp
  note pa = Push_admitted [OF inv small_op_Push [OF sm] nov False]
  show ?thesis
    using pa b by (intro exI conjI disjI1) (assumption | simp)+
qed

lemma Pop_step:
  assumes inv: "Inv q fs"
  shows "\<exists>q' fs'. (Pop q dst = (Inl ErrEmpty, q') \<or> (\<exists>out. Pop q dst = (Inr out, q')))
           \<and> Inv q' fs' \<and> writePtr q' = writePtr q \<and> cap q' = cap q
           \<and> unat (readPtr q) \<le> unat (readPtr q')"
proof (cases fs)
  case Nil
  with inv Pop_Inv_Nil [of q dst] show ?thesis by auto
next
  case (Cons p ps)
  with inv have "Inv q (p # ps)" by simp
  from Pop_Inv_Cons [OF this, of dst] show ?thesis by blast
qed

lemma run_Inv:
  assumes "Inv q fs" "\<forall>x\<in>set ops. small_op x"
    and "unat (writePtr q) + 2 * ops_cost ops \<le> 2 ^ 64"
  shows "\<exists>q' fs'. run q ops = Inr q' \<and> Inv q' fs' \<and> cap q' = cap q
           \<and> unat (readPtr q) \<le> unat (readPtr q')
           \<and> unat (writePtr q) \<le> unat (writePtr q')
           \<and> unat (writePtr q') \<le> unat (writePtr q) + 2 * ops_cost ops"
  using assms
proof (induction ops arbitrary: q fs)
  case Nil
  then show ?case by auto
next
  case (Cons x ops)
  show ?case
  proof (cases x)
    case (OpPush buf)
    have sm: "length buf + 4 \<le> 2 ^ 31" using Cons.prems(2) OpPush by simp
    have c: "ops_cost (x # ops) = (length buf + 4) + ops_cost ops"
      using OpPush by (simp add: ops_cost_def)
    have bud: "unat (writePtr q) + 2 * (length buf + 4) \<le> 2 ^ 64"
      using Cons.prems(3) c by simp
    from Push_step [OF Cons.prems(1) sm bud] obtain q1 fs1 where
      p: "Push q buf = (None, q1) \<or> Push q buf = (Some ErrFull, q1)"
      and i1: "Inv q1 fs1" and r1: "readPtr q1 = readPtr q" and c1: "cap q1 = cap q"
      and w1: "unat (writePtr q) \<le> unat (writePtr q1)"
      and w2: "unat (writePtr q1) < unat (writePtr q) + 2 * (length buf + 4)"
      by blast
    have bud1: "unat (writePtr q1) + 2 * ops_cost ops \<le> 2 ^ 64"
      using Cons.prems(3) c w2 by simp
    have sm1: "\<forall>x\<in>set ops. small_op x" using Cons.prems(2) by simp
    from Cons.IH [OF i1 sm1 bud1] obtain q' fs' where
      r: "run q1 ops = Inr q'" and i: "Inv q' fs'" and cc: "cap q' = cap q1"
      and rr: "unat (readPtr q1) \<le> unat (readPtr q')"
      and ww: "unat (writePtr q1) \<le> unat (writePtr q')"
      and wb: "unat (writePtr q') \<le> unat (writePtr q1) + 2 * ops_cost ops"
      by blast
    have "run q (x # ops) = Inr q'" using p r OpPush by auto
    moreover have "unat (writePtr q') \<le> unat (writePtr q) + 2 * ops_cost (x # ops)"
      using wb w2 c by simp
    ultimately show ?thesis using i cc c1 rr r1 ww w1 by (intro exI [of _ q'] exI [of _ fs']) simp
  next
    case (OpPop dst)
    have c: "ops_cost (x # ops) = ops_cost ops" using OpPop by (simp add: ops_cost_def)
    from Pop_step [OF Cons.prems(1), of dst] obtain q1 fs1 where
      p: "Pop q dst = (Inl ErrEmpty, q1) \<or> (\<exists>out. Pop q dst = (Inr out, q1))"
      and i1: "Inv q1 fs1" and w1: "writePtr q1 = writePtr q" and c1: "cap q1 = cap q"
      and r1: "unat (readPtr q) \<le> unat (readPtr q1)"
      by blast
    have bud1: "unat (writePtr q1) + 2 * ops_cost ops \<le> 2 ^ 64"
      using Cons.prems(3) c w1 by simp
    have sm1: "\<forall>x\<in>set ops. small_op x" using Cons.prems(2) by simp
    from Cons.IH [OF i1 sm1 bud1] obtain q' fs' where
      r: "run q1 ops = Inr q'" and i: "Inv q' fs'" and cc: "cap q' = cap q1"
      and rr: "unat (readPtr q1) \<le> unat (readPtr q')"
      and ww: "unat (writePtr q1) \<le> unat (writePtr q')"
      and wb: "unat (writePtr q') \<le> unat (writePtr q1) + 2 * ops_cost ops"
      by blast
    have "run q (x # ops) = Inr q'" using p r OpPop by auto
    then show ?thesis
      using i cc c1 rr r1 ww w1 wb c by (intro exI [of _ q'] exI [of _ fs']) simp
  qed
qed

lemma frames_Cons_lt: "frames a C r w (p # ps) \<Longrightarrow> r < w"
proof -
  assume "frames a C r w (p # ps)"
  then have "frames a C (frame_start a C r + 4 + length p) w ps" by simp
  from frames_le [OF this] show ?thesis by (simp add: frame_start_def split: if_splits)
qed

text \<open>In a consistent state the cursors are equal exactly when no frame is pending.\<close>

lemma Inv_empty:
  assumes "Inv q fs"
  shows "(readPtr q = writePtr q) = (fs = [])"
proof (cases fs)
  case Nil
  with assms have "unat (readPtr q) = unat (writePtr q)" by (simp add: Inv_def)
  then show ?thesis using Nil by (simp add: word_unat_eq_iff)
next
  case (Cons p ps)
  with assms have "frames (array (mem q)) (unat (cap q)) (unat (readPtr q))
      (unat (writePtr q)) (p # ps)"
    by (simp add: Inv_def)
  from frames_Cons_lt [OF this] show ?thesis using Cons by auto
qed

text \<open>An admitted \<^verbatim>\<open>Push\<close> appends its payload to the pending frames.\<close>

lemma Push_None_Inv:
  assumes inv: "Inv q fs" and sm: "length buf + 4 \<le> 2 ^ 31"
    and bud: "unat (writePtr q) + 2 * (length buf + 4) \<le> 2 ^ 64"
    and adm: "Push q buf = (None, q')"
  shows "Inv q' (fs @ [buf])"
    and "unat (writePtr q') < unat (writePtr q) + 2 * (length buf + 4)"
proof -
  let ?C = "unat (cap q)" and ?W = "unat (writePtr q)" and ?n = "length buf"
  have ln63: "?n < 2 ^ 63" using sm by simp
  have nf: "\<not> IsFull_spec ?C (unat (readPtr q)) ?W ?n"
  proof
    assume "IsFull_spec ?C (unat (readPtr q)) ?W ?n"
    from Push_full [OF inv ln63 this] adm show False by simp
  qed
  have b: "Push_spec_cursor ?C ?W ?n < ?W + 2 * (4 + ?n)"
    using Push_spec_cursor_bounds [of ?W ?n ?C] by simp
  have nov: "Push_spec_cursor ?C ?W ?n < 2 ^ 64" using b bud by simp
  note pa = Push_admitted [OF inv small_op_Push [OF sm] nov nf]
  from pa(1) adm have q': "q' = q\<lparr>mem := (mem q)\<lparr>array :=
                      Push_spec_region (array (mem q)) ?C ?W buf\<rparr>,
                   writePtr := of_nat (Push_spec_cursor ?C ?W ?n)\<rparr>" by simp
  show "Inv q' (fs @ [buf])" using pa(2) unfolding q' .
  show "unat (writePtr q') < ?W + 2 * (?n + 4)" using pa(3) b unfolding q' by simp
qed

lemma pushes_Inv:
  assumes "Inv q fs" "\<forall>x\<in>set (map OpPush ps). small_op x"
    and "unat (writePtr q) + 2 * ops_cost (map OpPush ps) \<le> 2 ^ 64"
    and "pushes q ps = (rs, q')" "\<forall>r\<in>set rs. r = None"
  shows "Inv q' (fs @ ps)"
  using assms
proof (induction ps arbitrary: q fs rs q')
  case Nil
  then show ?case by simp
next
  case (Cons p ps)
  obtain r1 q1 where p1: "Push q p = (r1, q1)" by (cases "Push q p")
  obtain rs2 q2 where p2: "pushes q1 ps = (rs2, q2)" by (cases "pushes q1 ps")
  from Cons.prems(4) p1 p2 have rs: "rs = r1 # rs2" and q': "q' = q2" by simp_all
  from Cons.prems(5) rs have n1: "r1 = None" and n2: "\<forall>r\<in>set rs2. r = None" by simp_all
  have sm: "length p + 4 \<le> 2 ^ 31" using Cons.prems(2) by simp
  have c: "ops_cost (map OpPush (p # ps)) = (length p + 4) + ops_cost (map OpPush ps)"
    by (simp add: ops_cost_def)
  have bud: "unat (writePtr q) + 2 * (length p + 4) \<le> 2 ^ 64" using Cons.prems(3) c by simp
  note st = Push_None_Inv [OF Cons.prems(1) sm bud p1 [unfolded n1]]
  have bud1: "unat (writePtr q1) + 2 * ops_cost (map OpPush ps) \<le> 2 ^ 64"
    using Cons.prems(3) c st(2) by simp
  have sm1: "\<forall>x\<in>set (map OpPush ps). small_op x" using Cons.prems(2) by simp
  from Cons.IH [OF st(1) sm1 bud1 p2 n2] show ?case by (simp add: q')
qed

lemma pops_Inv:
  "Inv q fs \<Longrightarrow> \<exists>q'. pops q (length fs) = (map Inr fs, q') \<and> Inv q' []"
proof (induction fs arbitrary: q)
  case Nil
  then show ?case by simp
next
  case (Cons p ps)
  from Pop_Inv_Cons [OF Cons.prems, of "[]"] obtain q1 where
    p: "Pop q [] = (Inr p, q1)" and i: "Inv q1 ps" by auto
  from Cons.IH [OF i] obtain q' where "pops q1 (length ps) = (map Inr ps, q')" "Inv q' []"
    by blast
  with p show ?case by simp
qed

text \<open>
  If popping as many times as \<open>fs\<close> is long returns the payloads \<open>fs\<close> and leaves the
  cursors equal, then \<open>fs\<close> is what was pending.
\<close>

lemma pops_drain:
  assumes "Inv q gs" "pops q (length fs) = (map Inr fs, qe)" "readPtr qe = writePtr qe"
  shows "gs = fs"
  using assms
proof (induction fs arbitrary: q gs)
  case Nil
  then have "qe = q" by simp
  with Nil.prems(3) Inv_empty [OF Nil.prems(1)] show ?case by simp
next
  case (Cons p ps)
  show ?case
  proof (cases gs)
    case Nil
    with Cons.prems(1) have "Pop q [] = (Inl ErrEmpty, q)" by (simp add: Pop_Inv_Nil)
    with Cons.prems(2) show ?thesis by (simp split: prod.splits)
  next
    case (Cons g gs')
    with Cons.prems(1) have "Inv q (g # gs')" by simp
    from Pop_Inv_Cons [OF this, of "[]"] obtain q1 where
      p: "Pop q [] = (Inr g, q1)" and i: "Inv q1 gs'" by auto
    from Cons.prems(2) p have pg: "p = g" and r: "pops q1 (length ps) = (map Inr ps, qe)"
      by (auto split: prod.splits)
    from Cons.IH [OF i r Cons.prems(3)] pg Cons show ?thesis by simp
  qed
qed

lemma Pop_range:
  assumes inv: "Inv q (p # ps)"
  shows "\<exists>rp meta z. Pop_meta q = Inr (rp, meta) \<and> \<not> meta <s 0
           \<and> unat (scast meta :: uint64) = length p
           \<and> pos q (readPtr q) = Inr (readPtr q mod cap q)
           \<and> unat (readPtr q mod cap q) < unat (cap q)
           \<and> pos q (rp + ElementMetaSize) = Inr z
           \<and> unat z + length p \<le> unat (cap q)"
proof -
  let ?a = "array (mem q)" and ?C = "unat (cap q)" and ?R = "unat (readPtr q)"
  let ?W = "unat (writePtr q)"
  let ?r0 = "frame_start ?a ?C ?R"
  let ?n = "length p"
  from inv have fr: "frames ?a ?C ?R ?W (p # ps)" and occ: "?W - ?R \<le> ?C"
    by (simp_all add: Inv_def)
  from fr have ln: "?n < 2 ^ 31"
    and fit: "?r0 mod ?C + 4 + ?n \<le> ?C"
    and tl: "frames ?a ?C (?r0 + 4 + ?n) ?W ps"
    by simp_all
  have r1w: "?r0 + 4 + ?n \<le> ?W" using frames_le [OF tl] .
  have rr0: "?R \<le> ?r0" by (simp add: frame_start_def)
  have C0: "0 < ?C" using r1w rr0 occ by linarith
  then have cap0: "cap q \<noteq> 0" by auto
  from Pop_meta_Inv [OF inv] obtain rp where
    pm: "Pop_meta q = Inr (rp, data_header ?n)" and urp: "unat rp = ?r0"
    by blast
  have Wlt: "?W < 18446744073709551616" by (rule unat_lt64)
  let ?rp4 = "rp + ElementMetaSize"
  have u4: "unat ?rp4 = ?r0 + 4"
    using r1w Wlt urp by (subst unat_add64) (simp_all add: ElementMetaSize_def)
  let ?z = "(?r0 + 4) mod ?C"
  have uz: "unat (?rp4 mod cap q) = ?z" by (simp add: unat_pos u4)
  have zlt: "?z < ?C" using C0 by simp
  have zb: "?z + ?n \<le> ?C"
  proof (cases "?n = 0")
    case True then show ?thesis using zlt by linarith
  next
    case False
    then have "?r0 mod ?C + 4 < ?C" using fit by linarith
    then have "?z = ?r0 mod ?C + 4"
      using mod_shift [OF C0, of 4 ?r0] by (simp split: if_splits)
    then show ?thesis using fit by linarith
  qed
  have ds: "unat (scast (data_header ?n) :: uint64) = ?n"
    using ln by (simp add: scast_data_header unat_of_nat64)
  have nn: "\<not> data_header ?n <s 0" using ln by (rule data_header_not_neg)
  have p0: "unat (readPtr q mod cap q) < ?C" using C0 by (simp add: unat_pos)
  show ?thesis
    using pm nn ds pos_ok [OF cap0] p0 zb uz
    by (intro exI [of _ rp] exI [of _ "data_header ?n"] exI [of _ "?rp4 mod cap q"]) simp
qed

lemma Push_range:
  assumes inv: "Inv q fs"
    and ln: "length buf < 2 ^ 31"
    and sk: "tail_short (unat (cap q)) (unat (writePtr q)) (length buf) \<longrightarrow>
               unat (cap q) - unat (writePtr q) mod unat (cap q) < 2 ^ 31"
    and nov: "Push_spec_cursor (unat (cap q)) (unat (writePtr q)) (length buf) < 2 ^ 64"
    and nf: "\<not> IsFull_spec (unat (cap q)) (unat (readPtr q)) (unat (writePtr q)) (length buf)"
  shows "\<exists>wp wpn q1 z. Push_skip q buf = (Inr (wp, wpn), q1)
           \<and> pos q (writePtr q) = Inr (writePtr q mod cap q)
           \<and> unat (writePtr q mod cap q) < unat (cap q)
           \<and> pos q1 wp = Inr z \<and> unat z + 4 + length buf \<le> unat (cap q)"
proof -
  let ?a = "array (mem q)" and ?C = "unat (cap q)" and ?R = "unat (readPtr q)"
  let ?W = "unat (writePtr q)" and ?n = "length buf"
  from inv have wf: "wf_Queue q" and RW: "?R \<le> ?W" by (simp_all add: Inv_def)
  from placement [OF RW nf] have C0: "0 < ?C"
    and lt: "?R mod ?C < ?C" "?W mod ?C < ?C"
    and pl: "(?W mod ?C = ?R mod ?C + (?W - ?R) \<and> \<not> tail_short ?C ?W ?n \<and> ?W mod ?C + (4 + ?n) \<le> ?C)
        \<or> (?W mod ?C = ?R mod ?C + (?W - ?R) \<and> tail_short ?C ?W ?n \<and> 4 + ?n \<le> ?R mod ?C)
        \<or> (?W mod ?C + ?C = ?R mod ?C + (?W - ?R) \<and> \<not> tail_short ?C ?W ?n \<and> ?W mod ?C + (4 + ?n) \<le> ?R mod ?C)"
    by simp_all
  have cap0: "cap q \<noteq> 0" using C0 by auto
  let ?e = "effective_position ?C ?W ?n mod ?C"
  have e: "?e = (if tail_short ?C ?W ?n then 0 else ?W mod ?C)"
    using C0 by (rule effective_position_mod)
  have fit: "?e + 4 + ?n \<le> ?C"
  proof (cases "tail_short ?C ?W ?n")
    case True
    then have "?e = 0" "4 + ?n \<le> ?R mod ?C" using e pl by auto
    then show ?thesis using lt(1) by linarith
  next
    case False
    then have "?e = ?W mod ?C"
      "?W mod ?C + (4 + ?n) \<le> ?C \<or> ?W mod ?C + (4 + ?n) \<le> ?R mod ?C" using e pl by auto
    then show ?thesis using lt(1) by linarith
  qed
  have nov': "effective_position ?C ?W ?n < 2 ^ 64" using nov by (simp add: Push_spec_cursor_def)
  from Push_skip_eval [OF wf C0 ln sk nov'] obtain wp q1 where
    ps: "Push_skip q buf = (Inr (wp, wp + ElementMetaSize + of_nat ?n), q1)"
    and q1: "q1 = (if tail_short ?C ?W ?n
            then q\<lparr>mem := (mem q)\<lparr>array := store ?a (?W mod ?C)
                    (int32_bytes (skip_header (?C - ?W mod ?C)))\<rparr>\<rparr>
            else q)"
    and uwp: "unat wp = effective_position ?C ?W ?n"
    by blast
  have c1: "cap q1 = cap q" by (simp add: q1)
  have p1: "pos q1 wp = Inr (wp mod cap q)" using cap0 by (simp add: pos_def c1)
  have uz: "unat (wp mod cap q) = ?e" by (simp add: unat_pos uwp)
  have p0: "unat (writePtr q mod cap q) < ?C" using C0 by (simp add: unat_pos)
  show ?thesis
    using ps pos_ok [OF cap0] p0 p1 fit uz
    by (intro exI [of _ wp] exI [of _ "wp + ElementMetaSize + of_nat ?n"] exI [of _ q1]
          exI [of _ "wp mod cap q"]) simp
qed

section \<open>Construction\<close>

text \<open>
  C7 as stated fails: \<^verbatim>\<open>NewQueue\<close> does not allocate a region for every capacity.
  For the capacity \<open>2^64 - 1\<close> the sum \<open>cap + 3\<close> wraps to 2, the length does not fit
  Go's \<^verbatim>\<open>int\<close> and exceeds the requested capacity of the slice, and \<^verbatim>\<open>make\<close>
  panics; no queue is constructed.
\<close>

theorem NewQueue_max_counterexample:
  "NewQueue 18446744073709551615 = Inl PanicMakeslice
   \<and> (18446744073709551615 :: uint64) + 3 = 2"
  by (simp add: NewQueue_def make_bytes_def)

text \<open>
  C7, amended: for every capacity with \<open>cap + 3 \<le> 2^48\<close>, \<^verbatim>\<open>NewQueue(cap)\<close> returns
  a queue; its backing array has \<open>cap + 3\<close> bytes (that is \<open>cap + ElementMetaSize - 1\<close>),
  all zero, of which \<open>cap\<close> are the slice's length, and both cursors are 0. The bound
  \<open>2^48\<close> bytes is the largest allocation the 64-bit Go runtime accepts before it
  looks for memory, and lies within what \<^verbatim>\<open>make_bytes\<close> accepts; whether the
  machine has that much memory is not part of this model.
\<close>

theorem NewQueue_region:
  assumes "unat c + 3 \<le> 2 ^ 48"
  shows "\<exists>q. NewQueue c = Inr q
       \<and> length (array (mem q)) = unat c + unat ElementMetaSize - 1
       \<and> length (array (mem q)) = unat c + 3
       \<and> array (mem q) = replicate (unat c + 3) 0
       \<and> slen (mem q) = unat c
       \<and> cap q = c \<and> readPtr q = 0 \<and> writePtr q = 0"
proof -
  have e: "unat (c + 3) = unat c + 3"
    using assms by (subst unat_add64) simp_all
  have "NewQueue c = Inr \<lparr>readPtr = 0, writePtr = 0, cap = c,
      mem = \<lparr>array = replicate (unat c + 3) 0, slen = unat c\<rparr>\<rparr>"
    using assms by (simp add: NewQueue_def make_bytes_def e)
  then show ?thesis by (simp add: ElementMetaSize_def)
qed

theorem NewQueue_region_witness:
  "unat (63 :: uint64) + 3 \<le> 2 ^ 48
   \<and> NewQueue 63 = Inr \<lparr>readPtr = 0, writePtr = 0, cap = 63,
       mem = \<lparr>array = replicate 66 0, slen = 63\<rparr>\<rparr>
   \<and> (\<exists>q. NewQueue 63 = Inr q \<and> length (array (mem q)) = 66 \<and> slen (mem q) = 63
         \<and> cap q = 63 \<and> readPtr q = 0 \<and> writePtr q = 0)"
proof -
  have h: "unat (63 :: uint64) + 3 \<le> 2 ^ 48" by simp
  have e: "NewQueue 63 = Inr \<lparr>readPtr = 0, writePtr = 0, cap = 63,
       mem = \<lparr>array = replicate 66 0, slen = 63\<rparr>\<rparr>"
    by (simp add: NewQueue_def make_bytes_def)
  from NewQueue_region [OF h] e show ?thesis by simp
qed

section \<open>Errors leave the queue as it was\<close>

text \<open>
  C5. When the admission check reports full, \<^verbatim>\<open>Push\<close> returns \<^verbatim>\<open>ErrFull\<close> and the
  queue it leaves is the queue it found (region and both cursors); when the cursors are
  equal, \<^verbatim>\<open>Pop\<close> returns \<^verbatim>\<open>ErrEmpty\<close> and leaves the queue as it found it; in
  particular on a freshly constructed queue.
\<close>

theorem Push_Pop_error_atomic:
  "(IsFull q (of_nat (length buf)) = Inr True \<longrightarrow> Push q buf = (Some ErrFull, q))
   \<and> (readPtr q = writePtr q \<longrightarrow> Pop q dst = (Inl ErrEmpty, q))
   \<and> (NewQueue c = Inr q0 \<longrightarrow> Pop q0 dst = (Inl ErrEmpty, q0))"
  by (auto simp: Push_def Pop_def IsEmpty_def NewQueue_def split: sum.splits)

theorem Push_Pop_error_atomic_witness:
  "IsFull \<lparr>readPtr = 0, writePtr = 0, cap = 8, mem = \<lparr>array = replicate 11 0, slen = 8\<rparr>\<rparr>
      (of_nat (length [1, 2, 3, 4, 5 :: byte])) = Inr True
   \<and> Push \<lparr>readPtr = 0, writePtr = 0, cap = 8, mem = \<lparr>array = replicate 11 0, slen = 8\<rparr>\<rparr>
      [1, 2, 3, 4, 5]
     = (Some ErrFull, \<lparr>readPtr = 0, writePtr = 0, cap = 8, mem = \<lparr>array = replicate 11 0, slen = 8\<rparr>\<rparr>)
   \<and> Pop \<lparr>readPtr = 0, writePtr = 0, cap = 8, mem = \<lparr>array = replicate 11 0, slen = 8\<rparr>\<rparr> []
     = (Inl ErrEmpty, \<lparr>readPtr = 0, writePtr = 0, cap = 8, mem = \<lparr>array = replicate 11 0, slen = 8\<rparr>\<rparr>)
   \<and> NewQueue 8 = Inr \<lparr>readPtr = 0, writePtr = 0, cap = 8, mem = \<lparr>array = replicate 11 0, slen = 8\<rparr>\<rparr>"
proof -
  let ?q = "\<lparr>readPtr = 0, writePtr = 0, cap = 8, mem = \<lparr>array = replicate 11 0, slen = 8\<rparr>\<rparr>"
  have f: "IsFull ?q (of_nat (length [1, 2, 3, 4, 5 :: byte])) = Inr True"
    by (simp add: IsFull_def ElementMetaSize_def)
  have n: "NewQueue 8 = Inr ?q"
    by (simp add: NewQueue_def make_bytes_def)
  show ?thesis
    using f n Push_Pop_error_atomic [of ?q "[1, 2, 3, 4, 5]" "[]" 8 ?q] by simp
qed

section \<open>The admission check\<close>

text \<open>
  C3 as stated fails: the parameter of \<^verbatim>\<open>IsFull\<close> is a \<^verbatim>\<open>uint64\<close>, and for
  \<open>n = 2^64 - 4\<close> the sum \<open>n + 4\<close> wraps to 0, so that on an empty queue of capacity 8
  \<^verbatim>\<open>IsFull\<close> answers false, while the specification's algorithm says full.
\<close>

theorem IsFull_wraps_counterexample:
  "IsFull \<lparr>readPtr = 0, writePtr = 0, cap = 8, mem = \<lparr>array = replicate 11 0, slen = 8\<rparr>\<rparr>
      18446744073709551612 = Inr False
   \<and> IsFull_spec 8 0 0 (unat (18446744073709551612 :: uint64)) = True"
  by (simp add: IsFull_def IsFull_spec_def ElementMetaSize_def pos_def)

text \<open>
  C3, amended. In every queue state with \<open>readPtr \<le> writePtr\<close>,
  \<open>writePtr - readPtr \<le> cap\<close> and the slice of a constructed queue
  (\<^verbatim>\<open>len(q.mem) = q.cap\<close>, \<open>cap + 3\<close> a Go \<^verbatim>\<open>int\<close>), and for every \<open>n\<close> that is the
  length of a Go slice (\<open>n < 2^63\<close>), \<^verbatim>\<open>IsFull(n)\<close> returns, without a panic, what the
  specification's algorithm computes. \<^verbatim>\<open>IsFull\<close> is a function of the queue and \<open>n\<close>
  alone and returns no queue: it mutates nothing.
\<close>

theorem IsFull_matches_spec:
  assumes "readPtr q \<le> writePtr q"
    and "unat (writePtr q) - unat (readPtr q) \<le> unat (cap q)"
    and "slen (mem q) = unat (cap q)"
    and "unat (cap q) + 3 < 2 ^ 63"
    and "unat n < 2 ^ 63"
  shows "IsFull q n =
           Inr (IsFull_spec (unat (cap q)) (unat (readPtr q)) (unat (writePtr q)) (unat n))"
  using assms by (rule IsFull_refines)

theorem IsFull_matches_spec_witness:
  "IsFull \<lparr>readPtr = 24, writePtr = 48, cap = 64, mem = \<lparr>array = replicate 67 0, slen = 64\<rparr>\<rparr> 21
     = Inr (IsFull_spec 64 24 48 21)
   \<and> IsFull_spec 64 24 48 21 \<and> \<not> IsFull_spec 64 24 48 20"
  using IsFull_matches_spec
    [of "\<lparr>readPtr = 24, writePtr = 48, cap = 64, mem = \<lparr>array = replicate 67 0, slen = 64\<rparr>\<rparr>" 21]
  by (simp add: IsFull_spec_def)

section \<open>Capacity 0\<close>

text \<open>
  C8 as stated fails at one argument: on a queue of capacity 0, \<^verbatim>\<open>IsFull(2^64 - 4)\<close>
  passes the first comparison (\<open>n + 4\<close> wraps to 0) and divides by zero in \<^verbatim>\<open>pos\<close>.
\<close>

theorem zero_capacity_IsFull_counterexample:
  "NewQueue 0 = Inr \<lparr>readPtr = 0, writePtr = 0, cap = 0, mem = \<lparr>array = replicate 3 0, slen = 0\<rparr>\<rparr>
   \<and> IsFull \<lparr>readPtr = 0, writePtr = 0, cap = 0, mem = \<lparr>array = replicate 3 0, slen = 0\<rparr>\<rparr>
        18446744073709551612 = Inl PanicDivideByZero"
  by (simp add: NewQueue_def make_bytes_def IsFull_def ElementMetaSize_def pos_def)

text \<open>
  C8, amended. On the queue \<^verbatim>\<open>NewQueue(0)\<close> returns, \<^verbatim>\<open>IsFull(n)\<close> is true for every
  \<open>n\<close> other than \<open>2^64 - 4\<close> (in particular for every length of a Go slice),
  \<^verbatim>\<open>Push\<close> returns \<^verbatim>\<open>ErrFull\<close> for every payload, \<^verbatim>\<open>IsEmpty\<close> is true and
  \<^verbatim>\<open>Pop\<close> returns \<^verbatim>\<open>ErrEmpty\<close>; none of them panics and none changes the queue.
\<close>

theorem zero_capacity:
  assumes "NewQueue 0 = Inr q"
  shows "(\<forall>n. n \<noteq> 18446744073709551612 \<longrightarrow> IsFull q n = Inr True)
       \<and> (\<forall>buf. length buf < 2 ^ 63 \<longrightarrow> Push q buf = (Some ErrFull, q))
       \<and> IsEmpty q
       \<and> (\<forall>dst. Pop q dst = (Inl ErrEmpty, q))"
proof -
  from assms have q: "q = \<lparr>readPtr = 0, writePtr = 0, cap = 0, mem = \<lparr>array = replicate 3 0, slen = 0\<rparr>\<rparr>"
    by (simp add: NewQueue_def make_bytes_def)
  have full: "IsFull q n = Inr True" if "n \<noteq> 18446744073709551612" for n
  proof -
    have "4 + n \<noteq> 0"
    proof
      assume "4 + n = 0"
      then have "n = - 4" by (simp add: add_eq_0_iff)
      with that show False by simp
    qed
    then have "0 < 4 + n" by (simp add: word_greater_zero_iff)
    then show ?thesis by (simp add: q IsFull_def ElementMetaSize_def)
  qed
  have push: "Push q buf = (Some ErrFull, q)" if "length buf < 2 ^ 63" for buf
  proof -
    have "unat (of_nat (length buf) :: uint64) = length buf"
      using that by (intro unat_of_nat64) simp
    then have "(of_nat (length buf) :: uint64) \<noteq> 18446744073709551612"
      using that by auto
    from full [OF this] show ?thesis by (simp add: Push_def)
  qed
  show ?thesis using full push by (simp add: q IsEmpty_def Pop_def)
qed

theorem zero_capacity_witness:
  "NewQueue 0 = Inr \<lparr>readPtr = 0, writePtr = 0, cap = 0, mem = \<lparr>array = replicate 3 0, slen = 0\<rparr>\<rparr>
   \<and> IsFull \<lparr>readPtr = 0, writePtr = 0, cap = 0, mem = \<lparr>array = replicate 3 0, slen = 0\<rparr>\<rparr> 0 = Inr True
   \<and> Push \<lparr>readPtr = 0, writePtr = 0, cap = 0, mem = \<lparr>array = replicate 3 0, slen = 0\<rparr>\<rparr> []
       = (Some ErrFull, \<lparr>readPtr = 0, writePtr = 0, cap = 0, mem = \<lparr>array = replicate 3 0, slen = 0\<rparr>\<rparr>)
   \<and> Pop \<lparr>readPtr = 0, writePtr = 0, cap = 0, mem = \<lparr>array = replicate 3 0, slen = 0\<rparr>\<rparr> []
       = (Inl ErrEmpty, \<lparr>readPtr = 0, writePtr = 0, cap = 0, mem = \<lparr>array = replicate 3 0, slen = 0\<rparr>\<rparr>)"
proof -
  have h: "NewQueue 0 = Inr \<lparr>readPtr = 0, writePtr = 0, cap = 0, mem = \<lparr>array = replicate 3 0, slen = 0\<rparr>\<rparr>"
    by (simp add: NewQueue_def make_bytes_def)
  show ?thesis using h zero_capacity [OF h] by simp
qed

section \<open>The write path\<close>

text \<open>Unfolding every operation of the queue, for evaluating it on a concrete input.\<close>

lemmas queue_eval = NewQueue_def make_bytes_def Push_def Pop_def IsFull_def IsEmpty_def pos_def
  Push_skip_def Pop_meta_def writeMeta_def readMeta_def copy_to_def slice_of_def
  ElementMetaSize_def store_def load_def int32_bytes_def bytes_int32_def Let_def
  word_sless_alt

text \<open>
  The write path on a queue in a consistent state, for a payload of fewer than \<open>2^31\<close>
  bytes, a skip (when one is needed) of fewer than \<open>2^31\<close> bytes and a write cursor
  that stays below \<open>2^64\<close>: an admitted \<^verbatim>\<open>Push\<close> leaves the region and the cursor
  that section 4.3 of the specification describes. If the tail is short, the header at
  \<open>pos\<close> is the negative number \<open>-(cap - pos)\<close>, the effective position is
  \<open>writePtr + (cap - pos)\<close>, physically 0; the header at the effective position is the
  length, the payload follows it, and the new write cursor is the effective position
  plus \<open>4 + length\<close>.
\<close>

theorem Push_writes_frame:
  assumes inv: "Inv q fs"
    and ln: "length buf < 2 ^ 31"
    and sk: "tail_short (unat (cap q)) (unat (writePtr q)) (length buf) \<longrightarrow>
               unat (cap q) - unat (writePtr q) mod unat (cap q) < 2 ^ 31"
    and nov: "Push_spec_cursor (unat (cap q)) (unat (writePtr q)) (length buf) < 2 ^ 64"
    and adm: "IsFull q (of_nat (length buf)) = Inr False"
  shows "\<exists>q'. Push q buf = (None, q')
           \<and> array (mem q') =
               Push_spec_region (array (mem q)) (unat (cap q)) (unat (writePtr q)) buf
           \<and> unat (writePtr q') =
               effective_position (unat (cap q)) (unat (writePtr q)) (length buf) + 4 + length buf
           \<and> readPtr q' = readPtr q \<and> cap q' = cap q \<and> slen (mem q') = slen (mem q)
           \<and> (if tail_short (unat (cap q)) (unat (writePtr q)) (length buf)
               then meta_at (array (mem q')) (unat (writePtr q) mod unat (cap q))
                      = skip_header (unat (cap q) - unat (writePtr q) mod unat (cap q))
                  \<and> sint (skip_header (unat (cap q) - unat (writePtr q) mod unat (cap q)))
                      = - int (unat (cap q) - unat (writePtr q) mod unat (cap q))
                  \<and> effective_position (unat (cap q)) (unat (writePtr q)) (length buf)
                      = unat (writePtr q) + (unat (cap q) - unat (writePtr q) mod unat (cap q))
                  \<and> effective_position (unat (cap q)) (unat (writePtr q)) (length buf)
                        mod unat (cap q) = 0
               else effective_position (unat (cap q)) (unat (writePtr q)) (length buf)
                      = unat (writePtr q))
           \<and> meta_at (array (mem q'))
                 (effective_position (unat (cap q)) (unat (writePtr q)) (length buf) mod unat (cap q))
               = data_header (length buf)
           \<and> sint (data_header (length buf)) = int (length buf)
           \<and> load (array (mem q'))
                 (effective_position (unat (cap q)) (unat (writePtr q)) (length buf) mod unat (cap q) + 4)
                 (length buf) = buf"
proof -
  let ?a = "array (mem q)" and ?C = "unat (cap q)" and ?R = "unat (readPtr q)"
  let ?W = "unat (writePtr q)" and ?n = "length buf"
  let ?T = "tail_short ?C ?W ?n"
  let ?ep = "effective_position ?C ?W ?n"
  let ?q' = "q\<lparr>mem := (mem q)\<lparr>array := Push_spec_region ?a ?C ?W buf\<rparr>,
               writePtr := of_nat (Push_spec_cursor ?C ?W ?n)\<rparr>"
  let ?a' = "Push_spec_region ?a ?C ?W buf"
  have ln63: "?n < 2 ^ 63" using ln by simp
  have nf: "\<not> IsFull_spec ?C ?R ?W ?n"
    using IsFull_Inv [OF inv ln63] adm by simp
  note pa = Push_admitted [OF inv ln sk nov nf]
  from inv have la: "length ?a = ?C + 3" and RW: "?R \<le> ?W"
    by (simp_all add: Inv_def wf_Queue_def)
  from placement [OF RW nf] have C0: "0 < ?C" and lt: "?W mod ?C < ?C" by simp_all
  have fr: "frames ?a' ?C ?W (Push_spec_cursor ?C ?W ?n) [buf]"
    using la RW nf ln sk by (rule Push_spec_region_frame)
  then have u: "(skipped ?a' ?C ?W \<longrightarrow>
         meta_at ?a' (?W mod ?C) = skip_header (?C - ?W mod ?C) \<and> ?C - ?W mod ?C < 2 ^ 31)
      \<and> meta_at ?a' (frame_start ?a' ?C ?W mod ?C) = data_header ?n
      \<and> ?n < 2 ^ 31
      \<and> frame_start ?a' ?C ?W mod ?C + 4 + ?n \<le> ?C
      \<and> load ?a' (frame_start ?a' ?C ?W mod ?C + 4) ?n = buf
      \<and> frame_start ?a' ?C ?W + 4 + ?n = Push_spec_cursor ?C ?W ?n"
    unfolding frames.simps .
  from u have fs: "frame_start ?a' ?C ?W = ?ep" unfolding Push_spec_cursor_def by linarith
  from u have hd: "meta_at ?a' (frame_start ?a' ?C ?W mod ?C) = data_header ?n" by blast
  from u have pl: "load ?a' (frame_start ?a' ?C ?W mod ?C + 4) ?n = buf" by blast
  from u have skf: "skipped ?a' ?C ?W \<longrightarrow> meta_at ?a' (?W mod ?C) = skip_header (?C - ?W mod ?C)"
    by blast
  have sd: "sint (data_header ?n) = int ?n"
    using ln by (simp add: data_header_def sint_of_nat32)
  have cases: "if ?T
      then meta_at ?a' (?W mod ?C) = skip_header (?C - ?W mod ?C)
         \<and> sint (skip_header (?C - ?W mod ?C)) = - int (?C - ?W mod ?C)
         \<and> ?ep = ?W + (?C - ?W mod ?C) \<and> ?ep mod ?C = 0
      else ?ep = ?W"
  proof (cases ?T)
    case False
    then show ?thesis by (simp add: effective_position_def)
  next
    case True
    then have ep: "?ep = ?W + (?C - ?W mod ?C)" by (simp add: effective_position_def)
    have "?ep \<noteq> ?W" unfolding ep using lt by linarith
    then have "skipped ?a' ?C ?W" using fs by (cases "skipped ?a' ?C ?W") (simp_all add: frame_start_def)
    then have m: "meta_at ?a' (?W mod ?C) = skip_header (?C - ?W mod ?C)" using skf by simp
    have "?C - ?W mod ?C < 2 ^ 31" using sk True by simp
    then have s: "sint (skip_header (?C - ?W mod ?C)) = - int (?C - ?W mod ?C)"
      by (simp add: skip_header_def sint_neg_of_nat32)
    have z: "?ep mod ?C = 0" using effective_position_mod [OF C0, of ?W ?n] True by simp
    show ?thesis using True m s ep z by simp
  qed
  have p: "Push q buf = (None, ?q')" by (rule pa(1))
  have uw: "unat (writePtr ?q') = ?ep + 4 + ?n"
    using pa(3) by (simp add: Push_spec_cursor_def)
  have hd': "meta_at ?a' (?ep mod ?C) = data_header ?n" using hd unfolding fs .
  have pl': "load ?a' (?ep mod ?C + 4) ?n = buf" using pl unfolding fs .
  have sel: "array (mem ?q') = ?a'" "readPtr ?q' = readPtr q" "cap ?q' = cap q"
    "slen (mem ?q') = slen (mem q)" by simp_all
  show ?thesis
    apply (rule exI [of _ ?q'])
    apply (unfold sel)
    using p uw cases hd' pl' sd apply (intro conjI)
             apply (assumption | rule refl)+
    done
qed

theorem Push_writes_frame_witness:
  "\<exists>q'. Push \<lparr>readPtr = 56, writePtr = 56, cap = 63, mem = \<lparr>array = replicate 66 0, slen = 63\<rparr>\<rparr>
           [1, 2, 3, 4, 5, 6] = (None, q')
       \<and> unat (writePtr q') = 73
       \<and> meta_at (array (mem q')) 56 = skip_header 7
       \<and> sint (skip_header 7) = - 7
       \<and> meta_at (array (mem q')) 0 = data_header 6
       \<and> load (array (mem q')) 4 6 = [1, 2, 3, 4, 5, 6]"
proof -
  let ?q = "\<lparr>readPtr = 56, writePtr = 56, cap = 63, mem = \<lparr>array = replicate 66 0, slen = 63\<rparr>\<rparr>"
  let ?buf = "[1, 2, 3, 4, 5, 6] :: byte list"
  have h1: "Inv ?q []" by (simp add: Inv_def wf_Queue_def)
  have h2: "length ?buf < 2 ^ 31" by simp
  have h3: "tail_short (unat (cap ?q)) (unat (writePtr ?q)) (length ?buf) \<longrightarrow>
              unat (cap ?q) - unat (writePtr ?q) mod unat (cap ?q) < 2 ^ 31" by simp
  have h4: "Push_spec_cursor (unat (cap ?q)) (unat (writePtr ?q)) (length ?buf) < 2 ^ 64"
    by (simp add: Push_spec_cursor_def effective_position_def tail_short_def)
  have h5: "IsFull ?q (of_nat (length ?buf)) = Inr False"
    by (simp add: IsFull_def ElementMetaSize_def pos_def)
  have l: "length ?buf = 6" by simp
  from Push_writes_frame [OF h1 h2 h3 h4 h5, unfolded l] show ?thesis
    apply (simp add: effective_position_def tail_short_def)
    apply blast
    done
qed

text \<open>
  A queue of capacity \<open>2^32 + 3\<close>, one payload of \<open>2^31 - 1\<close> bytes pushed and popped:
  both cursors are \<open>2^31 + 3\<close>, and \<open>2^31\<close> bytes are left up to the physical end.
\<close>

lemma big_push_pop:
  defines "Q0 \<equiv> \<lparr>readPtr = 0, writePtr = 0, cap = 4294967299,
                   mem = \<lparr>array = replicate 4294967302 0, slen = 4294967299\<rparr>\<rparr>"
    and "buf \<equiv> replicate 2147483647 (0 :: byte)"
  shows "\<exists>q2. run Q0 [OpPush buf, OpPop []] = Inr q2 \<and> wf_Queue q2
           \<and> readPtr q2 = 2147483651 \<and> writePtr q2 = 2147483651 \<and> cap q2 = 4294967299"
proof -
  have inv: "Inv Q0 []" by (simp add: Inv_def wf_Queue_def Q0_def)
  have n: "length buf = 2147483647" by (simp add: buf_def)
  have ln: "length buf < 2 ^ 31" by (simp add: n)
  have nt: "\<not> tail_short (unat (cap Q0)) (unat (writePtr Q0)) (length buf)"
    by (simp add: tail_short_def Q0_def n)
  then have sk: "tail_short (unat (cap Q0)) (unat (writePtr Q0)) (length buf) \<longrightarrow>
               unat (cap Q0) - unat (writePtr Q0) mod unat (cap Q0) < 2 ^ 31" by simp
  have cur: "Push_spec_cursor (unat (cap Q0)) (unat (writePtr Q0)) (length buf) = 2147483651"
    using nt by (simp add: Push_spec_cursor_def effective_position_def n Q0_def)
  have nov: "Push_spec_cursor (unat (cap Q0)) (unat (writePtr Q0)) (length buf) < 2 ^ 64"
    by (simp add: cur)
  have nf: "\<not> IsFull_spec (unat (cap Q0)) (unat (readPtr Q0)) (unat (writePtr Q0)) (length buf)"
    by (simp add: IsFull_spec_def Q0_def n)
  note pa = Push_admitted [OF inv ln sk nov nf]
  let ?q1 = "Q0\<lparr>mem := (mem Q0)\<lparr>array :=
                      Push_spec_region (array (mem Q0)) (unat (cap Q0)) (unat (writePtr Q0)) buf\<rparr>,
                   writePtr := of_nat (Push_spec_cursor (unat (cap Q0)) (unat (writePtr Q0))
                                 (length buf))\<rparr>"
  have w1: "writePtr ?q1 = 2147483651" by (simp add: cur)
  from Pop_Inv_Cons [OF pa(2) [simplified], of "[]"] obtain q2 where
    pop: "Pop ?q1 [] = (Inr buf, q2)" and i2: "Inv q2 []"
    and w2: "writePtr q2 = writePtr ?q1" and c2: "cap q2 = cap ?q1"
    by auto
  from i2 have "unat (readPtr q2) = unat (writePtr q2)" and wf2: "wf_Queue q2"
    by (simp_all add: Inv_def)
  then have r2: "readPtr q2 = writePtr q2" by (simp add: word_unat_eq_iff)
  have "run Q0 [OpPush buf, OpPop []] = Inr q2" using pa(1) pop by simp
  then show ?thesis using wf2 r2 w2 w1 c2 by (auto simp: Q0_def)
qed


text \<open>
  C4. The conversion \<^verbatim>\<open>int32(q.cap - q.pos(writePtr))\<close> loses a skip of \<open>2^31\<close> bytes
  or more, which a payload of \<open>2^31 - 3\<close> to \<open>2^31 - 1\<close> bytes (within the documented
  \<^verbatim>\<open>len(buf) < 2^31\<close>) can require. On a queue of capacity \<open>2^32 + 3\<close>, after a
  payload of \<open>2^31 - 1\<close> bytes has been pushed and popped, pushing it again is admitted
  and the tail (\<open>2^31\<close> bytes) is short, so the effective position should be
  \<open>2^32 + 3\<close> (physically 0) and the new write cursor \<open>2^32 + 3 + 2^31 + 3\<close>. The code
  moves the local write pointer by \<open>-2^31\<close> instead: the frame goes to position 3 and
  the new write cursor is \<open>2^31 + 6\<close>.
\<close>

theorem Push_skip_int32_failing_input:
  "NewQueue 4294967299 = Inr \<lparr>readPtr = 0, writePtr = 0, cap = 4294967299,
                   mem = \<lparr>array = replicate 4294967302 0, slen = 4294967299\<rparr>\<rparr>
   \<and> \<not> isl (run \<lparr>readPtr = 0, writePtr = 0, cap = 4294967299,
                   mem = \<lparr>array = replicate 4294967302 0, slen = 4294967299\<rparr>\<rparr>
                [OpPush (replicate 2147483647 0), OpPop []])
   \<and> readPtr (projr (run \<lparr>readPtr = 0, writePtr = 0, cap = 4294967299,
                   mem = \<lparr>array = replicate 4294967302 0, slen = 4294967299\<rparr>\<rparr>
                [OpPush (replicate 2147483647 0), OpPop []])) = 2147483651
   \<and> writePtr (projr (run \<lparr>readPtr = 0, writePtr = 0, cap = 4294967299,
                   mem = \<lparr>array = replicate 4294967302 0, slen = 4294967299\<rparr>\<rparr>
                [OpPush (replicate 2147483647 0), OpPop []])) = 2147483651
   \<and> IsFull (projr (run \<lparr>readPtr = 0, writePtr = 0, cap = 4294967299,
                   mem = \<lparr>array = replicate 4294967302 0, slen = 4294967299\<rparr>\<rparr>
                [OpPush (replicate 2147483647 0), OpPop []]))
         (of_nat (length (replicate 2147483647 (0 :: byte)))) = Inr False
   \<and> tail_short 4294967299 2147483651 2147483647
   \<and> effective_position 4294967299 2147483651 2147483647 = 4294967299
   \<and> Push_spec_cursor 4294967299 2147483651 2147483647 = 6442450950
   \<and> fst (Push_skip (projr (run \<lparr>readPtr = 0, writePtr = 0, cap = 4294967299,
                   mem = \<lparr>array = replicate 4294967302 0, slen = 4294967299\<rparr>\<rparr>
                [OpPush (replicate 2147483647 0), OpPop []]))
         (replicate 2147483647 0)) = Inr (3, 2147483654)
   \<and> fst (Push (projr (run \<lparr>readPtr = 0, writePtr = 0, cap = 4294967299,
                   mem = \<lparr>array = replicate 4294967302 0, slen = 4294967299\<rparr>\<rparr>
                [OpPush (replicate 2147483647 0), OpPop []]))
         (replicate 2147483647 0)) = None
   \<and> writePtr (snd (Push (projr (run \<lparr>readPtr = 0, writePtr = 0, cap = 4294967299,
                   mem = \<lparr>array = replicate 4294967302 0, slen = 4294967299\<rparr>\<rparr>
                [OpPush (replicate 2147483647 0), OpPop []]))
         (replicate 2147483647 0))) = 2147483654"
proof -
  from big_push_pop obtain q2 where
    r: "run \<lparr>readPtr = 0, writePtr = 0, cap = 4294967299,
                   mem = \<lparr>array = replicate 4294967302 0, slen = 4294967299\<rparr>\<rparr>
                [OpPush (replicate 2147483647 0), OpPop []] = Inr q2"
    and wf: "wf_Queue q2" and r2: "readPtr q2 = 2147483651" and w2: "writePtr q2 = 2147483651"
    and c2: "cap q2 = 4294967299"
    by blast
  from wf c2 have sl: "slen (mem q2) = 4294967299" and la: "length (array (mem q2)) = 4294967302"
    by (simp_all add: wf_Queue_def)
  have nq: "NewQueue 4294967299 = Inr \<lparr>readPtr = 0, writePtr = 0, cap = 4294967299,
                   mem = \<lparr>array = replicate 4294967302 0, slen = 4294967299\<rparr>\<rparr>"
    by (simp add: NewQueue_def make_bytes_def)
  have f: "IsFull q2 (of_nat (length (replicate 2147483647 (0 :: byte)))) = Inr False"
    by (simp add: IsFull_def ElementMetaSize_def pos_def r2 w2 c2 sl)
  have ps: "fst (Push_skip q2 (replicate 2147483647 0)) = Inr (3, 2147483654)"
    by (simp add: Push_skip_def ElementMetaSize_def pos_def writeMeta_def Let_def r2 w2 c2 sl la)
  have p: "fst (Push q2 (replicate 2147483647 0)) = None
         \<and> writePtr (snd (Push q2 (replicate 2147483647 0))) = 2147483654"
    by (simp add: Push_def f [simplified] Push_skip_def ElementMetaSize_def pos_def writeMeta_def
          Let_def copy_to_def length_store length_int32_bytes r2 w2 c2 sl la)
  have t: "tail_short 4294967299 2147483651 2147483647
         \<and> effective_position 4294967299 2147483651 2147483647 = 4294967299
         \<and> Push_spec_cursor 4294967299 2147483651 2147483647 = 6442450950"
    by (simp add: tail_short_def effective_position_def Push_spec_cursor_def)
  show ?thesis
    unfolding r using nq f ps p t r2 w2 by simp
qed

section \<open>Where the cursors wrap\<close>

text \<open>
  The cursors are \<^verbatim>\<open>uint64\<close>: after \<open>2^64\<close> bytes of frames the write cursor
  wraps to a small number, and unless the capacity divides \<open>2^64\<close> the physical
  position \<^verbatim>\<open>ptr % cap\<close> jumps with it. A queue of capacity 24 gets there by
  pushing and popping the empty payload \<open>2^62 - 1\<close> times: each round moves both
  cursors on by 4 and leaves the region zero.
\<close>

lemma store_zeros:
  "i + n \<le> m \<Longrightarrow> store (replicate m (0 :: byte)) i (replicate n 0) = replicate m 0"
proof -
  assume a: "i + n \<le> m"
  have "replicate m (0 :: byte) = replicate i 0 @ replicate n 0 @ replicate (m - (i + n)) 0"
    using a by (simp add: replicate_add [symmetric])
  then show ?thesis using a by (simp add: store_def)
qed

lemma store_Nil: "i \<le> length xs \<Longrightarrow> store xs i [] = xs"
  by (simp add: store_def)

lemma int32_bytes_zero: "int32_bytes (data_header 0) = replicate 4 0"
  by (simp add: int32_bytes_def data_header_def numeral_eq_Suc)

lemma meta_at_zeros: "p + 4 \<le> m \<Longrightarrow> meta_at (replicate m 0) p = 0"
  by (simp add: meta_at_def load_def bytes_int32_def)

lemma round_24:
  assumes x4: "4 dvd x" and xb: "x + 4 < 2 ^ 64"
  shows "run \<lparr>readPtr = of_nat x, writePtr = of_nat x, cap = 24,
                mem = \<lparr>array = replicate 27 0, slen = 24\<rparr>\<rparr> [OpPush [], OpPop []]
         = Inr \<lparr>readPtr = of_nat (x + 4), writePtr = of_nat (x + 4), cap = 24,
                mem = \<lparr>array = replicate 27 0, slen = 24\<rparr>\<rparr>"
proof -
  let ?q = "\<lparr>readPtr = of_nat x, writePtr = of_nat x, cap = 24,
                mem = \<lparr>array = replicate 27 0, slen = 24\<rparr>\<rparr> :: Queue"
  have ux: "unat (of_nat x :: uint64) = x" using xb by (intro unat_of_nat64) simp
  have inv: "Inv ?q []" by (simp add: Inv_def wf_Queue_def)
  have m4: "4 dvd x mod 24" using x4 by (simp add: dvd_mod)
  have ml: "x mod 24 < 24" by simp
  have pw: "x mod 24 + 4 \<le> 24" using m4 ml by presburger
  have nt: "\<not> tail_short 24 x 0" using pw by (simp add: tail_short_def)
  have nf: "\<not> IsFull_spec (unat (cap ?q)) (unat (readPtr ?q)) (unat (writePtr ?q)) (length ([] :: byte list))"
    using pw by (simp add: ux IsFull_spec_def)
  have ln: "length ([] :: byte list) < 2 ^ 31" by simp
  have sk: "tail_short (unat (cap ?q)) (unat (writePtr ?q)) (length ([] :: byte list)) \<longrightarrow>
               unat (cap ?q) - unat (writePtr ?q) mod unat (cap ?q) < 2 ^ 31"
    using nt by (simp add: ux)
  have cur: "Push_spec_cursor 24 x 0 = x + 4"
    using nt by (simp add: Push_spec_cursor_def effective_position_def)
  have nov: "Push_spec_cursor (unat (cap ?q)) (unat (writePtr ?q)) (length ([] :: byte list)) < 2 ^ 64"
    using xb by (simp add: ux cur)
  have reg: "Push_spec_region (replicate 27 0) 24 x [] = replicate 27 0"
    using nt pw
    by (simp add: Push_spec_region_def Let_def effective_position_def int32_bytes_zero
          store_zeros store_Nil)
  let ?q1 = "\<lparr>readPtr = of_nat x, writePtr = of_nat (x + 4), cap = 24,
                mem = \<lparr>array = replicate 27 0, slen = 24\<rparr>\<rparr> :: Queue"
  note pa = Push_admitted [OF inv ln sk nov nf]
  have push: "Push ?q [] = (None, ?q1)" using pa(1) by (simp add: ux cur reg)
  have inv1: "Inv ?q1 [[]]" using pa(2) by (simp add: ux cur reg)
  have ns: "\<not> skipped (replicate 27 0) 24 x"
    using pw by (simp add: skipped_def meta_at_zeros word_sless_alt)
  from Pop_Inv_Cons [OF inv1, of "[]"] obtain q2 where
    pop: "Pop ?q1 [] = (Inr [], q2)" and m2: "mem q2 = mem ?q1" and w2: "writePtr q2 = writePtr ?q1"
    and c2: "cap q2 = cap ?q1"
    and r2: "unat (readPtr q2) = frame_start (array (mem ?q1)) (unat (cap ?q1)) (unat (readPtr ?q1)) + 4 + length ([] :: byte list)"
    by auto
  have "unat (readPtr q2) = x + 4" using r2 ns by (simp add: ux frame_start_def)
  then have "readPtr q2 = of_nat (x + 4)" by (metis of_nat_unat ucast_id)
  then have q2: "q2 = \<lparr>readPtr = of_nat (x + 4), writePtr = of_nat (x + 4), cap = 24,
                mem = \<lparr>array = replicate 27 0, slen = 24\<rparr>\<rparr>"
    using m2 w2 c2 by (cases q2) simp
  show ?thesis using push pop q2 by simp
qed

lemma rounds_24_from:
  "4 * (j + k) < 2 ^ 64 \<Longrightarrow>
     run \<lparr>readPtr = of_nat (4 * j), writePtr = of_nat (4 * j), cap = 24,
           mem = \<lparr>array = replicate 27 0, slen = 24\<rparr>\<rparr> (rounds k)
     = Inr \<lparr>readPtr = of_nat (4 * (j + k)), writePtr = of_nat (4 * (j + k)), cap = 24,
           mem = \<lparr>array = replicate 27 0, slen = 24\<rparr>\<rparr>"
proof (induction k arbitrary: j)
  case 0
  then show ?case by simp
next
  case (Suc k)
  have b: "4 * j + 4 < 2 ^ 64" using Suc.prems by simp
  have r: "run \<lparr>readPtr = of_nat (4 * j), writePtr = of_nat (4 * j), cap = 24,
         mem = \<lparr>array = replicate 27 0, slen = 24\<rparr>\<rparr> [OpPush [], OpPop []]
     = Inr \<lparr>readPtr = of_nat (4 * j + 4), writePtr = of_nat (4 * j + 4), cap = 24,
         mem = \<lparr>array = replicate 27 0, slen = 24\<rparr>\<rparr>"
    using b by (intro round_24) simp_all
  have e: "4 * j + 4 = 4 * (Suc j)" by simp
  have ih: "run \<lparr>readPtr = of_nat (4 * Suc j), writePtr = of_nat (4 * Suc j), cap = 24,
         mem = \<lparr>array = replicate 27 0, slen = 24\<rparr>\<rparr> (rounds k)
     = Inr \<lparr>readPtr = of_nat (4 * (Suc j + k)), writePtr = of_nat (4 * (Suc j + k)), cap = 24,
         mem = \<lparr>array = replicate 27 0, slen = 24\<rparr>\<rparr>"
    using Suc.prems by (intro Suc.IH) simp
  have "rounds (Suc k) = [OpPush [], OpPop []] @ rounds k" by simp
  then have "run \<lparr>readPtr = of_nat (4 * j), writePtr = of_nat (4 * j), cap = 24,
         mem = \<lparr>array = replicate 27 0, slen = 24\<rparr>\<rparr> (rounds (Suc k))
     = run \<lparr>readPtr = of_nat (4 * Suc j), writePtr = of_nat (4 * Suc j), cap = 24,
         mem = \<lparr>array = replicate 27 0, slen = 24\<rparr>\<rparr> (rounds k)"
    unfolding e [symmetric] by (simp only: run_append r) simp
  then show ?case using ih by simp
qed

lemma rounds_24:
  "4 * k < 2 ^ 64 \<Longrightarrow>
   run \<lparr>readPtr = 0, writePtr = 0, cap = 24, mem = \<lparr>array = replicate 27 0, slen = 24\<rparr>\<rparr>
     (rounds k)
   = Inr \<lparr>readPtr = of_nat (4 * k), writePtr = of_nat (4 * k), cap = 24,
           mem = \<lparr>array = replicate 27 0, slen = 24\<rparr>\<rparr>"
  using rounds_24_from [of 0 k] by simp

lemma before_wrap:
  "run \<lparr>readPtr = 0, writePtr = 0, cap = 24, mem = \<lparr>array = replicate 27 0, slen = 24\<rparr>\<rparr>
     (rounds 4611686018427387903)
   = Inr \<lparr>readPtr = 18446744073709551612, writePtr = 18446744073709551612, cap = 24,
           mem = \<lparr>array = replicate 27 0, slen = 24\<rparr>\<rparr>"
  using rounds_24 [of 4611686018427387903] by simp

section \<open>The cursors\<close>

text \<open>
  C2 as stated fails where the write cursor wraps: on a queue of capacity 24, after
  \<open>2^62 - 1\<close> rounds of pushing and popping the empty payload both cursors are
  \<open>2^64 - 4\<close>; one more \<^verbatim>\<open>Push\<close> of the empty payload is admitted and leaves
  \<open>writePtr = 0\<close> below \<open>readPtr = 2^64 - 4\<close>.
\<close>

theorem cursor_wrap_counterexample:
  "NewQueue 24 = Inr \<lparr>readPtr = 0, writePtr = 0, cap = 24, mem = \<lparr>array = replicate 27 0, slen = 24\<rparr>\<rparr>
   \<and> \<not> isl (run \<lparr>readPtr = 0, writePtr = 0, cap = 24, mem = \<lparr>array = replicate 27 0, slen = 24\<rparr>\<rparr>
              (rounds 4611686018427387903 @ [OpPush []]))
   \<and> readPtr (projr (run \<lparr>readPtr = 0, writePtr = 0, cap = 24,
                          mem = \<lparr>array = replicate 27 0, slen = 24\<rparr>\<rparr>
              (rounds 4611686018427387903 @ [OpPush []]))) = 18446744073709551612
   \<and> writePtr (projr (run \<lparr>readPtr = 0, writePtr = 0, cap = 24,
                          mem = \<lparr>array = replicate 27 0, slen = 24\<rparr>\<rparr>
              (rounds 4611686018427387903 @ [OpPush []]))) = 0
   \<and> \<not> (18446744073709551612 :: uint64) \<le> 0"
  by (simp add: run_append before_wrap) (simp add: queue_eval NewQueue_def make_bytes_def)

text \<open>
  C2, amended: starting from a freshly constructed queue, after any sequence of
  \<^verbatim>\<open>Push\<close> and \<^verbatim>\<open>Pop\<close> calls whose payloads have at most \<open>2^31 - 4\<close> bytes and
  whose frames (payloads and headers) add up to at most \<open>2^63\<close> bytes, no call has
  panicked, \<open>readPtr \<le> writePtr\<close> and \<open>writePtr - readPtr \<le> cap\<close>, and neither cursor is
  below its value after any prefix of the sequence.
\<close>

theorem cursors_stay_ordered:
  assumes "NewQueue c = Inr q0" and "\<forall>x\<in>set ops. small_op x"
    and "2 * ops_cost ops \<le> 2 ^ 64"
  shows "\<exists>q. run q0 ops = Inr q
           \<and> readPtr q \<le> writePtr q
           \<and> unat (writePtr q) - unat (readPtr q) \<le> unat (cap q)
           \<and> writePtr q - readPtr q \<le> cap q
           \<and> (\<forall>xs ys. ops = xs @ ys \<longrightarrow>
                 (\<exists>q1. run q0 xs = Inr q1 \<and> readPtr q1 \<le> readPtr q \<and> writePtr q1 \<le> writePtr q))"
proof -
  note nq = NewQueue_Inv [OF assms(1)]
  have b0: "unat (writePtr q0) + 2 * ops_cost ops \<le> 2 ^ 64" using assms(3) nq(3) by simp
  from run_Inv [OF nq(1) assms(2) b0] obtain q fs where
    r: "run q0 ops = Inr q" and i: "Inv q fs" by blast
  from i have RW: "unat (readPtr q) \<le> unat (writePtr q)"
    and occ: "unat (writePtr q) - unat (readPtr q) \<le> unat (cap q)" by (simp_all add: Inv_def)
  have le: "readPtr q \<le> writePtr q" using RW by (simp add: word_le_nat_alt)
  have sub: "writePtr q - readPtr q \<le> cap q"
    using occ RW by (simp add: word_le_nat_alt unat_sub64)
  have mono: "\<exists>q1. run q0 xs = Inr q1 \<and> readPtr q1 \<le> readPtr q \<and> writePtr q1 \<le> writePtr q"
    if sp: "ops = xs @ ys" for xs ys
  proof -
    have c: "ops_cost ops = ops_cost xs + ops_cost ys" by (simp add: sp ops_cost_def)
    have sx: "\<forall>x\<in>set xs. small_op x" and sy: "\<forall>x\<in>set ys. small_op x"
      using assms(2) sp by auto
    have bx: "unat (writePtr q0) + 2 * ops_cost xs \<le> 2 ^ 64" using b0 c by simp
    from run_Inv [OF nq(1) sx bx] obtain q1 fs1 where
      r1: "run q0 xs = Inr q1" and i1: "Inv q1 fs1"
      and w1: "unat (writePtr q1) \<le> unat (writePtr q0) + 2 * ops_cost xs" by blast
    have by1: "unat (writePtr q1) + 2 * ops_cost ys \<le> 2 ^ 64" using w1 b0 c by simp
    from run_Inv [OF i1 sy by1] obtain q2 where
      r2: "run q1 ys = Inr q2" and rr: "unat (readPtr q1) \<le> unat (readPtr q2)"
      and ww: "unat (writePtr q1) \<le> unat (writePtr q2)" by blast
    have "run q0 ops = Inr q2" using r1 r2 by (simp add: sp run_append)
    with r have "q2 = q" by simp
    with r1 rr ww show ?thesis by (auto simp: word_le_nat_alt)
  qed
  show ?thesis using r le occ sub mono by blast
qed

theorem cursors_stay_ordered_witness:
  "NewQueue 63 = Inr \<lparr>readPtr = 0, writePtr = 0, cap = 63, mem = \<lparr>array = replicate 66 0, slen = 63\<rparr>\<rparr>
   \<and> (\<exists>q. run \<lparr>readPtr = 0, writePtr = 0, cap = 63, mem = \<lparr>array = replicate 66 0, slen = 63\<rparr>\<rparr>
            [OpPush [0, 2, 3, 4], OpPop [], OpPush [1, 2, 3, 4], OpPop [],
             OpPush [1, 2, 3, 4, 5, 6], OpPop []] = Inr q
          \<and> readPtr q \<le> writePtr q \<and> writePtr q - readPtr q \<le> cap q)"
proof -
  let ?q0 = "\<lparr>readPtr = 0, writePtr = 0, cap = 63, mem = \<lparr>array = replicate 66 0, slen = 63\<rparr>\<rparr>"
  let ?ops = "[OpPush [0, 2, 3, 4], OpPop [], OpPush [1, 2, 3, 4], OpPop [],
             OpPush [1, 2, 3, 4, 5, 6], OpPop []]"
  have h1: "NewQueue 63 = Inr ?q0" by (simp add: NewQueue_def make_bytes_def)
  have h2: "\<forall>x\<in>set ?ops. small_op x" by simp
  have h3: "2 * ops_cost ?ops \<le> 2 ^ 64" by (simp add: ops_cost_def)
  from cursors_stay_ordered [OF h1 h2 h3] h1 show ?thesis by blast
qed

section \<open>No two skips in a row\<close>

text \<open>
  C6 as stated fails where the write cursor wraps: on a queue of capacity 24, after
  \<open>2^62 - 1\<close> rounds of pushing and popping the empty payload, three admitted pushes
  (the empty payload, eight bytes \<open>0xff\<close>, four bytes \<open>0xff\<close>) carry the write cursor
  across \<open>2^64\<close>, where its physical position jumps back, so that the third push
  overwrites the header of the first frame, which is still unread. The first
  \<^verbatim>\<open>Pop\<close> then leaves the read cursor inside the payload of the second frame, and
  the second \<^verbatim>\<open>Pop\<close> reads two negative headers in a row and takes the
  \<^verbatim>\<open>panic("unreachable")\<close> branch.
\<close>

theorem double_skip_counterexample:
  "NewQueue 24 = Inr \<lparr>readPtr = 0, writePtr = 0, cap = 24, mem = \<lparr>array = replicate 27 0, slen = 24\<rparr>\<rparr>
   \<and> run \<lparr>readPtr = 0, writePtr = 0, cap = 24, mem = \<lparr>array = replicate 27 0, slen = 24\<rparr>\<rparr>
        (rounds 4611686018427387903 @
         [OpPush [], OpPush [255, 255, 255, 255, 255, 255, 255, 255], OpPush [255, 255, 255, 255],
          OpPop [], OpPop []])
       = Inl PanicUnreachable"
  by (simp add: run_append before_wrap) (simp add: queue_eval NewQueue_def make_bytes_def)

text \<open>
  C6, amended: in every state reached from a freshly constructed queue by a sequence
  of \<^verbatim>\<open>Push\<close> and \<^verbatim>\<open>Pop\<close> calls whose payloads have at most \<open>2^31 - 4\<close> bytes and
  whose frames add up to at most \<open>2^63\<close> bytes, \<^verbatim>\<open>Pop\<close> does not take its
  \<^verbatim>\<open>panic("unreachable")\<close> branch, and when the queue is not empty the header
  \<^verbatim>\<open>Pop\<close> ends up with, after following at most one skip, is not negative.
\<close>

theorem Pop_never_unreachable:
  assumes "NewQueue c = Inr q0" and "\<forall>x\<in>set ops. small_op x"
    and "2 * ops_cost ops \<le> 2 ^ 64"
  shows "\<exists>q. run q0 ops = Inr q
           \<and> (\<forall>dst. fst (Pop q dst) \<noteq> Inl PanicUnreachable)
           \<and> (readPtr q \<noteq> writePtr q \<longrightarrow>
                 (\<exists>rp meta. Pop_meta q = Inr (rp, meta) \<and> \<not> meta <s 0))"
proof -
  note nq = NewQueue_Inv [OF assms(1)]
  have b0: "unat (writePtr q0) + 2 * ops_cost ops \<le> 2 ^ 64" using assms(3) nq(3) by simp
  from run_Inv [OF nq(1) assms(2) b0] obtain q fs where
    r: "run q0 ops = Inr q" and i: "Inv q fs" by blast
  have a: "fst (Pop q dst) \<noteq> Inl PanicUnreachable" for dst
    using Pop_step [OF i, of dst] by auto
  have b: "\<exists>rp meta. Pop_meta q = Inr (rp, meta) \<and> \<not> meta <s 0" if ne: "readPtr q \<noteq> writePtr q"
  proof (cases fs)
    case Nil
    with i have "unat (readPtr q) = unat (writePtr q)" by (simp add: Inv_def)
    with ne show ?thesis by (simp add: word_unat_eq_iff)
  next
    case (Cons p ps)
    with i have "Inv q (p # ps)" by simp
    from Pop_range [OF this] show ?thesis by blast
  qed
  show ?thesis using r a b by blast
qed

theorem Pop_never_unreachable_witness:
  "NewQueue 63 = Inr \<lparr>readPtr = 0, writePtr = 0, cap = 63, mem = \<lparr>array = replicate 66 0, slen = 63\<rparr>\<rparr>
   \<and> (\<exists>q. run \<lparr>readPtr = 0, writePtr = 0, cap = 63, mem = \<lparr>array = replicate 66 0, slen = 63\<rparr>\<rparr>
            [OpPush [0, 2, 3, 4], OpPop [], OpPush [1, 2, 3, 4], OpPop [],
             OpPush [1, 2, 3, 4, 5, 6]] = Inr q
          \<and> fst (Pop q []) \<noteq> Inl PanicUnreachable)"
proof -
  let ?q0 = "\<lparr>readPtr = 0, writePtr = 0, cap = 63, mem = \<lparr>array = replicate 66 0, slen = 63\<rparr>\<rparr>"
  let ?ops = "[OpPush [0, 2, 3, 4], OpPop [], OpPush [1, 2, 3, 4], OpPop [],
             OpPush [1, 2, 3, 4, 5, 6]]"
  have h1: "NewQueue 63 = Inr ?q0" by (simp add: NewQueue_def make_bytes_def)
  have h2: "\<forall>x\<in>set ?ops. small_op x" by simp
  have h3: "2 * ops_cost ?ops \<le> 2 ^ 64" by (simp add: ops_cost_def)
  from Pop_never_unreachable [OF h1 h2 h3] h1 show ?thesis by blast
qed

section \<open>First in, first out\<close>

text \<open>
  C1 as stated fails: a payload no longer than the capacity need not be admitted. On a
  queue of capacity 4 the one-byte payload costs 5 bytes; \<^verbatim>\<open>Push\<close> returns
  \<^verbatim>\<open>ErrFull\<close> and the following \<^verbatim>\<open>Pop\<close> returns \<^verbatim>\<open>ErrEmpty\<close>.
\<close>

theorem fifo_full_counterexample:
  "NewQueue 4 = Inr \<lparr>readPtr = 0, writePtr = 0, cap = 4, mem = \<lparr>array = replicate 7 0, slen = 4\<rparr>\<rparr>
   \<and> length [1 :: byte] \<le> unat (4 :: uint64)
   \<and> pushes \<lparr>readPtr = 0, writePtr = 0, cap = 4, mem = \<lparr>array = replicate 7 0, slen = 4\<rparr>\<rparr> [[1]]
       = ([Some ErrFull], \<lparr>readPtr = 0, writePtr = 0, cap = 4, mem = \<lparr>array = replicate 7 0, slen = 4\<rparr>\<rparr>)
   \<and> fst (pops \<lparr>readPtr = 0, writePtr = 0, cap = 4, mem = \<lparr>array = replicate 7 0, slen = 4\<rparr>\<rparr> 1)
       = [Inl ErrEmpty]"
  by (simp add: NewQueue_def make_bytes_def Push_def IsFull_def ElementMetaSize_def Pop_def
        IsEmpty_def)

text \<open>
  The round trip also fails where the write cursor wraps, which is why the amended
  statement below bounds the history. On a queue of capacity 24, after \<open>2^62 - 1\<close>
  rounds of pushing and popping the empty payload the queue is empty with both cursors
  at \<open>2^64 - 4\<close>, physical position 12. Three pushes (the empty payload, eight bytes
  \<open>0xff\<close>, four bytes \<open>0xff\<close>) are admitted: the first puts its header at position 12
  and carries the write cursor across \<open>2^64\<close> to 0, the second is written at position
  0, and the third puts its header at position 12, over the header of the first. The
  first \<^verbatim>\<open>Pop\<close> then finds the header 4 at position 12, moves its reading pointer
  across \<open>2^64\<close> to physical position 0 and returns the four bytes found there, the
  header of the second frame, instead of the empty payload.
\<close>

theorem fifo_wrap_failing_input:
  "run \<lparr>readPtr = 0, writePtr = 0, cap = 24, mem = \<lparr>array = replicate 27 0, slen = 24\<rparr>\<rparr>
       (rounds 4611686018427387903)
     = Inr \<lparr>readPtr = 18446744073709551612, writePtr = 18446744073709551612, cap = 24,
            mem = \<lparr>array = replicate 27 0, slen = 24\<rparr>\<rparr>
   \<and> fst (pushes \<lparr>readPtr = 18446744073709551612, writePtr = 18446744073709551612, cap = 24,
                   mem = \<lparr>array = replicate 27 0, slen = 24\<rparr>\<rparr>
          [[], [255, 255, 255, 255, 255, 255, 255, 255], [255, 255, 255, 255]])
       = [None, None, None]
   \<and> fst (Pop (snd (pushes \<lparr>readPtr = 18446744073709551612, writePtr = 18446744073709551612,
                   cap = 24, mem = \<lparr>array = replicate 27 0, slen = 24\<rparr>\<rparr>
          [[], [255, 255, 255, 255, 255, 255, 255, 255], [255, 255, 255, 255]])) [])
       = Inr [8, 0, 0, 0]"
proof -
  have z: "replicate 27 (0 :: byte) = [0, 0, 0, 0, 0, 0, 0, 0, 0, 0, 0, 0, 0, 0, 0, 0, 0, 0,
                                       0, 0, 0, 0, 0, 0, 0, 0, 0]"
    by (simp add: numeral_eq_Suc)
  show ?thesis
    apply (simp only: before_wrap simp_thms)
    apply (simp add: z queue_eval)
    done
qed

text \<open>
  C1, amended. Take any state \<open>q\<close> reached from a freshly constructed queue by a
  sequence of \<^verbatim>\<open>Push\<close> and \<^verbatim>\<open>Pop\<close> calls, and let \<open>fs\<close> be the payloads pending
  in it: popping \<open>q\<close> as many times as \<open>fs\<close> is long returns \<open>fs\<close> and leaves the queue
  empty (\<open>fs\<close> is the empty list when \<open>q\<close> is empty). If the payloads \<open>p1..pn\<close> are
  pushed in order onto \<open>q\<close> and every \<^verbatim>\<open>Push\<close> is admitted (returns no error), then
  popping returns first \<open>fs\<close> and then exactly \<open>p1..pn\<close> in order, byte for byte,
  zero-length payloads included, and leaves the queue empty. All payloads have at most
  \<open>2^31 - 4\<close> bytes, and the frames of the whole history, \<open>p1..pn\<close> included, add up to
  at most \<open>2^63\<close> bytes. The queue may have wrapped physically any number of times.
\<close>

theorem fifo_round_trip:
  assumes "NewQueue c = Inr q0"
    and "\<forall>x\<in>set (ops @ map OpPush ps). small_op x"
    and "2 * ops_cost (ops @ map OpPush ps) \<le> 2 ^ 64"
    and "run q0 ops = Inr q"
    and "pops q (length fs) = (map Inr fs, qe)" and "readPtr qe = writePtr qe"
    and "pushes q ps = (rs, q1)" and "\<forall>r\<in>set rs. r = None"
  shows "fst (pops q1 (length fs + length ps)) = map Inr fs @ map Inr ps
       \<and> IsEmpty (snd (pops q1 (length fs + length ps)))"
proof -
  note nq = NewQueue_Inv [OF assms(1)]
  have c: "ops_cost (ops @ map OpPush ps) = ops_cost ops + ops_cost (map OpPush ps)"
    by (simp add: ops_cost_def)
  have so: "\<forall>x\<in>set ops. small_op x" and sp: "\<forall>x\<in>set (map OpPush ps). small_op x"
    using assms(2) by auto
  have b0: "unat (writePtr q0) + 2 * ops_cost ops \<le> 2 ^ 64" using assms(3) nq(3) c by simp
  from run_Inv [OF nq(1) so b0] assms(4) obtain gs where
    i: "Inv q gs" and wb: "unat (writePtr q) \<le> unat (writePtr q0) + 2 * ops_cost ops"
    by auto
  have gs: "gs = fs" using i assms(5) assms(6) by (rule pops_drain)
  have b1: "unat (writePtr q) + 2 * ops_cost (map OpPush ps) \<le> 2 ^ 64"
    using wb assms(3) nq(3) c by simp
  from pushes_Inv [OF i sp b1 assms(7) assms(8)] have "Inv q1 (fs @ ps)" by (simp add: gs)
  from pops_Inv [OF this] obtain q2 where
    p: "pops q1 (length fs + length ps) = (map Inr fs @ map Inr ps, q2)" and e: "Inv q2 []"
    by auto
  from Inv_empty [OF e] have "readPtr q2 = writePtr q2" by simp
  with p show ?thesis by (simp add: IsEmpty_def)
qed

text \<open>
  The theorem at a state that has wrapped: on a queue of capacity 24, after three
  pushes and two pops the cursors are 16 and 22 and the payload \<open>[9, 10]\<close> is pending.
  The push of \<open>[1, 2]\<close> finds a tail of two bytes, writes the skip header \<open>-2\<close> at
  position 22 (its last two bytes in the spare bytes behind the capacity) and the frame
  at position 0; the pops return the pending payload, follow the skip header and
  return the three payloads pushed.
\<close>

theorem fifo_round_trip_witness:
  "run \<lparr>readPtr = 0, writePtr = 0, cap = 24, mem = \<lparr>array = replicate 27 0, slen = 24\<rparr>\<rparr>
      [OpPush [1, 2, 3, 4], OpPop [], OpPush [5, 6, 7, 8], OpPop [], OpPush [9, 10]]
     = Inr \<lparr>readPtr = 16, writePtr = 22, cap = 24,
            mem = \<lparr>array = [4, 0, 0, 0, 1, 2, 3, 4, 4, 0, 0, 0, 5, 6, 7, 8, 2, 0, 0, 0, 9, 10,
                             0, 0, 0, 0, 0], slen = 24\<rparr>\<rparr>
   \<and> fst (pushes \<lparr>readPtr = 16, writePtr = 22, cap = 24,
            mem = \<lparr>array = [4, 0, 0, 0, 1, 2, 3, 4, 4, 0, 0, 0, 5, 6, 7, 8, 2, 0, 0, 0, 9, 10,
                             0, 0, 0, 0, 0], slen = 24\<rparr>\<rparr> [[1, 2], [], [3]])
       = [None, None, None]
   \<and> array (mem (snd (pushes \<lparr>readPtr = 16, writePtr = 22, cap = 24,
            mem = \<lparr>array = [4, 0, 0, 0, 1, 2, 3, 4, 4, 0, 0, 0, 5, 6, 7, 8, 2, 0, 0, 0, 9, 10,
                             0, 0, 0, 0, 0], slen = 24\<rparr>\<rparr> [[1, 2], [], [3]])))
       = [2, 0, 0, 0, 1, 2, 0, 0, 0, 0, 1, 0, 0, 0, 3, 8, 2, 0, 0, 0, 9, 10,
          254, 255, 255, 255, 0]
   \<and> fst (pops (snd (pushes \<lparr>readPtr = 16, writePtr = 22, cap = 24,
            mem = \<lparr>array = [4, 0, 0, 0, 1, 2, 3, 4, 4, 0, 0, 0, 5, 6, 7, 8, 2, 0, 0, 0, 9, 10,
                             0, 0, 0, 0, 0], slen = 24\<rparr>\<rparr> [[1, 2], [], [3]])) 4)
       = [Inr [9, 10], Inr [1, 2], Inr [], Inr [3]]"
proof -
  let ?init = "\<lparr>readPtr = 0, writePtr = 0, cap = 24, mem = \<lparr>array = replicate 27 0, slen = 24\<rparr>\<rparr>"
  let ?ops = "[OpPush [1, 2, 3, 4], OpPop [], OpPush [5, 6, 7, 8], OpPop [], OpPush [9, 10]]"
  let ?a = "[4, 0, 0, 0, 1, 2, 3, 4, 4, 0, 0, 0, 5, 6, 7, 8, 2, 0, 0, 0, 9, 10,
             0, 0, 0, 0, 0] :: byte list"
  let ?q = "\<lparr>readPtr = 16, writePtr = 22, cap = 24, mem = \<lparr>array = ?a, slen = 24\<rparr>\<rparr>"
  let ?qe = "\<lparr>readPtr = 22, writePtr = 22, cap = 24, mem = \<lparr>array = ?a, slen = 24\<rparr>\<rparr>"
  let ?fs = "[[9, 10]] :: byte list list"
  let ?ps = "[[1, 2], [], [3]] :: byte list list"
  have h1: "NewQueue 24 = Inr ?init" by (simp add: NewQueue_def make_bytes_def)
  have h2: "\<forall>x\<in>set (?ops @ map OpPush ?ps). small_op x" by simp
  have h3: "2 * ops_cost (?ops @ map OpPush ?ps) \<le> 2 ^ 64" by (simp add: ops_cost_def)
  have z: "replicate 27 (0 :: byte) = [0, 0, 0, 0, 0, 0, 0, 0, 0, 0, 0, 0, 0, 0, 0, 0, 0, 0,
                                       0, 0, 0, 0, 0, 0, 0, 0, 0]"
    by (simp add: numeral_eq_Suc)
  have h4: "run ?init ?ops = Inr ?q" by (simp add: z queue_eval)
  have h5: "pops ?q (length ?fs) = (map Inr ?fs, ?qe)" by (simp add: queue_eval)
  have h6: "readPtr ?qe = writePtr ?qe" by simp
  have f: "fst (pushes ?q ?ps) = [None, None, None]" by (simp add: queue_eval)
  have a: "array (mem (snd (pushes ?q ?ps)))
       = [2, 0, 0, 0, 1, 2, 0, 0, 0, 0, 1, 0, 0, 0, 3, 8, 2, 0, 0, 0, 9, 10,
          254, 255, 255, 255, 0]" by (simp add: queue_eval)
  have h7: "pushes ?q ?ps = ([None, None, None], snd (pushes ?q ?ps))"
    using f by (metis prod.collapse)
  have h8: "\<forall>r\<in>set [None, None, None :: error option]. r = None" by simp
  have l: "length ?fs + length ?ps = 4" by simp
  from fifo_round_trip [OF h1 h2 h3 h4 h5 h6 h7 h8, unfolded l]
  have g: "fst (pops (snd (pushes ?q ?ps)) 4) = map Inr ?fs @ map Inr ?ps" by simp
  show ?thesis using h4 f a g by simp
qed

section \<open>Memory safety\<close>

text \<open>
  C9 as stated fails where the write cursor wraps: on a queue of capacity 24, after
  \<open>2^62 - 1\<close> rounds of pushing and popping the empty payload, three admitted pushes and
  one pop lead to a state in which \<^verbatim>\<open>Pop\<close> finds the header 17 at position 4 and
  copies the payload from the range from 8 to 25, one byte past the capacity (inside
  the allocation of 27 bytes, so Go does not stop it).
\<close>

theorem payload_range_counterexample:
  "NewQueue 24 = Inr \<lparr>readPtr = 0, writePtr = 0, cap = 24, mem = \<lparr>array = replicate 27 0, slen = 24\<rparr>\<rparr>
   \<and> \<not> isl (run \<lparr>readPtr = 0, writePtr = 0, cap = 24, mem = \<lparr>array = replicate 27 0, slen = 24\<rparr>\<rparr>
        (rounds 4611686018427387903 @
         [OpPush [], OpPush [17, 0, 0, 0, 17, 0, 0, 0], OpPush [17, 0, 0, 0], OpPop []]))
   \<and> Pop_meta (projr (run \<lparr>readPtr = 0, writePtr = 0, cap = 24,
                          mem = \<lparr>array = replicate 27 0, slen = 24\<rparr>\<rparr>
        (rounds 4611686018427387903 @
         [OpPush [], OpPush [17, 0, 0, 0, 17, 0, 0, 0], OpPush [17, 0, 0, 0], OpPop []])))
       = Inr (4, 17)
   \<and> pos (projr (run \<lparr>readPtr = 0, writePtr = 0, cap = 24,
                          mem = \<lparr>array = replicate 27 0, slen = 24\<rparr>\<rparr>
        (rounds 4611686018427387903 @
         [OpPush [], OpPush [17, 0, 0, 0, 17, 0, 0, 0], OpPush [17, 0, 0, 0], OpPop []])))
         (4 + ElementMetaSize) = Inr 8
   \<and> fst (Pop (projr (run \<lparr>readPtr = 0, writePtr = 0, cap = 24,
                          mem = \<lparr>array = replicate 27 0, slen = 24\<rparr>\<rparr>
        (rounds 4611686018427387903 @
         [OpPush [], OpPush [17, 0, 0, 0, 17, 0, 0, 0], OpPush [17, 0, 0, 0], OpPop []]))) [])
       = Inr [17, 0, 0, 0, 4, 0, 0, 0, 17, 0, 0, 0, 0, 0, 0, 0, 0]
   \<and> \<not> unat (8 :: uint64) + unat (scast (17 :: int32) :: uint64) \<le> unat (24 :: uint64)"
  apply (simp add: run_append before_wrap)
  apply (simp add: queue_eval NewQueue_def make_bytes_def)
  apply (simp add: numeral_eq_Suc)
  done

text \<open>
  C9, amended: in every state reached from a freshly constructed queue by a sequence
  of \<^verbatim>\<open>Push\<close> and \<^verbatim>\<open>Pop\<close> calls whose payloads have at most \<open>2^31 - 4\<close> bytes and
  whose frames (with those of one further \<^verbatim>\<open>Push\<close>) add up to at most \<open>2^63\<close> bytes,
  the backing array has \<open>cap + 3\<close> bytes; a further \<^verbatim>\<open>Push\<close> either returns
  \<^verbatim>\<open>ErrFull\<close> or succeeds, reading and writing headers only at positions below
  \<open>cap\<close> and copying the payload into a range that ends at or before \<open>cap\<close>; a further
  \<^verbatim>\<open>Pop\<close> either returns \<^verbatim>\<open>ErrEmpty\<close> or succeeds, reading headers only at
  positions below \<open>cap\<close> and the payload from a range that ends at or before \<open>cap\<close>.
  No index, slice or allocation bound is violated.
\<close>

theorem accesses_in_bounds:
  assumes "NewQueue c = Inr q0" and "\<forall>x\<in>set ops. small_op x"
    and "length buf + 4 \<le> 2 ^ 31"
    and "2 * (ops_cost ops + (length buf + 4)) \<le> 2 ^ 64"
  shows "\<exists>q. run q0 ops = Inr q
           \<and> length (array (mem q)) = unat (cap q) + 3
           \<and> (fst (Push q buf) = Some ErrFull
              \<or> fst (Push q buf) = None
                \<and> (\<exists>p0 wp wpn q1 p.
                      pos q (writePtr q) = Inr p0 \<and> unat p0 < unat (cap q)
                    \<and> Push_skip q buf = (Inr (wp, wpn), q1)
                    \<and> pos q1 wp = Inr p \<and> unat p < unat (cap q)
                    \<and> unat p + 4 + length buf \<le> unat (cap q)))
           \<and> (fst (Pop q dst) = Inl ErrEmpty
              \<or> (\<exists>out p0 rp meta p1 p.
                      fst (Pop q dst) = Inr out
                    \<and> pos q (readPtr q) = Inr p0 \<and> unat p0 < unat (cap q)
                    \<and> Pop_meta q = Inr (rp, meta)
                    \<and> pos q rp = Inr p1 \<and> unat p1 < unat (cap q)
                    \<and> pos q (rp + ElementMetaSize) = Inr p
                    \<and> unat p + unat (scast meta :: uint64) \<le> unat (cap q)))"
proof -
  note nq = NewQueue_Inv [OF assms(1)]
  have b0: "unat (writePtr q0) + 2 * ops_cost ops \<le> 2 ^ 64" using assms(4) nq(3) by simp
  from run_Inv [OF nq(1) assms(2) b0] obtain q fs where
    r: "run q0 ops = Inr q" and i: "Inv q fs"
    and wb: "unat (writePtr q) \<le> unat (writePtr q0) + 2 * ops_cost ops" by blast
  let ?C = "unat (cap q)" and ?W = "unat (writePtr q)" and ?n = "length buf"
  have la: "length (array (mem q)) = ?C + 3" using i by (simp add: Inv_def wf_Queue_def)
  have push: "fst (Push q buf) = Some ErrFull
              \<or> fst (Push q buf) = None
                \<and> (\<exists>p0 wp wpn q1 p.
                      pos q (writePtr q) = Inr p0 \<and> unat p0 < ?C
                    \<and> Push_skip q buf = (Inr (wp, wpn), q1)
                    \<and> pos q1 wp = Inr p \<and> unat p < ?C
                    \<and> unat p + 4 + ?n \<le> ?C)"
  proof (cases "IsFull_spec ?C (unat (readPtr q)) ?W ?n")
    case True
    have "?n < 2 ^ 63" using assms(3) by simp
    from Push_full [OF i this True] show ?thesis by simp
  next
    case False
    have "Push_spec_cursor ?C ?W ?n < ?W + 2 * (4 + ?n)"
      using Push_spec_cursor_bounds [of ?W ?n ?C] by simp
    then have nov: "Push_spec_cursor ?C ?W ?n < 2 ^ 64" using wb assms(4) nq(3) by simp
    note sm = small_op_Push [OF assms(3)]
    note pa = Push_admitted [OF i sm nov False]
    from Push_range [OF i sm nov False] obtain wp wpn q1 z where
      "Push_skip q buf = (Inr (wp, wpn), q1)"
      "pos q (writePtr q) = Inr (writePtr q mod cap q)"
      "unat (writePtr q mod cap q) < ?C"
      "pos q1 wp = Inr z" "unat z + 4 + ?n \<le> ?C"
      by blast
    moreover from this have "unat z < ?C" by linarith
    ultimately show ?thesis using pa(1) by auto
  qed
  have pop: "fst (Pop q dst) = Inl ErrEmpty
              \<or> (\<exists>out p0 rp meta p1 p.
                      fst (Pop q dst) = Inr out
                    \<and> pos q (readPtr q) = Inr p0 \<and> unat p0 < ?C
                    \<and> Pop_meta q = Inr (rp, meta)
                    \<and> pos q rp = Inr p1 \<and> unat p1 < ?C
                    \<and> pos q (rp + ElementMetaSize) = Inr p
                    \<and> unat p + unat (scast meta :: uint64) \<le> ?C)"
  proof (cases fs)
    case Nil
    with i Pop_Inv_Nil [of q dst] show ?thesis by simp
  next
    case (Cons p ps)
    with i have ic: "Inv q (p # ps)" by simp
    from Pop_Inv_Cons [OF ic, of dst] have out: "fst (Pop q dst) = Inr (dst @ p)" by auto
    from Pop_range [OF ic] obtain rp meta z where
      pm: "Pop_meta q = Inr (rp, meta)" and ds: "unat (scast meta :: uint64) = length p"
      and p0: "pos q (readPtr q) = Inr (readPtr q mod cap q)"
      and l0: "unat (readPtr q mod cap q) < ?C"
      and pz: "pos q (rp + ElementMetaSize) = Inr z" and zb: "unat z + length p \<le> ?C"
      by blast
    have cap0: "cap q \<noteq> 0" using l0 by auto
    have p1: "pos q rp = Inr (rp mod cap q)" using cap0 by (rule pos_ok)
    have l1: "unat (rp mod cap q) < ?C" using l0 by (simp add: unat_pos)
    show ?thesis
      using out p0 l0 pm p1 l1 pz zb ds by auto
  qed
  show ?thesis using r la push pop by blast
qed

theorem accesses_in_bounds_witness:
  "NewQueue 63 = Inr \<lparr>readPtr = 0, writePtr = 0, cap = 63, mem = \<lparr>array = replicate 66 0, slen = 63\<rparr>\<rparr>
   \<and> (\<exists>q. run \<lparr>readPtr = 0, writePtr = 0, cap = 63, mem = \<lparr>array = replicate 66 0, slen = 63\<rparr>\<rparr>
            [OpPush [0, 2, 3, 4], OpPop [], OpPush [1, 2, 3, 4], OpPop []] = Inr q
          \<and> length (array (mem q)) = unat (cap q) + 3)"
proof -
  let ?q0 = "\<lparr>readPtr = 0, writePtr = 0, cap = 63, mem = \<lparr>array = replicate 66 0, slen = 63\<rparr>\<rparr>"
  let ?ops = "[OpPush [0, 2, 3, 4], OpPop [], OpPush [1, 2, 3, 4], OpPop []]"
  let ?buf = "[1, 2, 3, 4, 5, 6] :: byte list"
  have h1: "NewQueue 63 = Inr ?q0" by (simp add: NewQueue_def make_bytes_def)
  have h2: "\<forall>x\<in>set ?ops. small_op x" by simp
  have h3: "length ?buf + 4 \<le> 2 ^ 31" by simp
  have h4: "2 * (ops_cost ?ops + (length ?buf + 4)) \<le> 2 ^ 64" by (simp add: ops_cost_def)
  from accesses_in_bounds [OF h1 h2 h3 h4, of "[]"] h1 show ?thesis by blast
qed

end
